theory Spec2Isabelle
  imports Complex_Main "HOL-Library.Monad_Syntax"
begin

section \<open>JavaScript values used by the segmentation worker\<close>

text \<open>
  The worker \<^verbatim>\<open>src/workers/segmentation.worker.ts\<close> works on typed arrays
  (\<^verbatim>\<open>Uint8ClampedArray\<close>, \<^verbatim>\<open>Uint8Array\<close>) and JavaScript numbers. A typed array is a
  list of bytes, held as \<open>nat\<close>. Coordinates, indices and the tolerance are integers
  (the callers floor every click coordinate), held as \<open>int\<close>; image dimensions come
  from an \<^verbatim>\<open>ImageData\<close> and are unsigned, held as \<open>nat\<close>.

  Reading a typed array outside its range gives \<^verbatim>\<open>undefined\<close> (here \<open>None\<close>), writing
  outside its range is ignored. Arithmetic on \<^verbatim>\<open>undefined\<close> gives \<^verbatim>\<open>NaN\<close> (here \<open>None\<close>
  of a number), and every comparison with \<^verbatim>\<open>NaN\<close> is false.
\<close>

definition js_get :: "nat list \<Rightarrow> int \<Rightarrow> nat option" where
  "js_get xs i = (if 0 \<le> i \<and> i < int (length xs) then Some (xs ! nat i) else None)"

definition js_set :: "nat list \<Rightarrow> int \<Rightarrow> nat \<Rightarrow> nat list" where
  "js_set xs i v = (if 0 \<le> i \<and> i < int (length xs) then xs[nat i := v] else xs)"

fun truthy :: "nat option \<Rightarrow> bool" where
  "truthy None = False"
| "truthy (Some v) = (v \<noteq> 0)"

text \<open>\<^verbatim>\<open>Math.abs(a - b)\<close> on array reads: \<^verbatim>\<open>NaN\<close> as soon as one read is \<^verbatim>\<open>undefined\<close>.\<close>

fun abs_diff :: "nat option \<Rightarrow> nat option \<Rightarrow> int option" where
  "abs_diff (Some a) (Some b) = Some \<bar>int a - int b\<bar>"
| "abs_diff _ _ = None"

fun num_add :: "int option \<Rightarrow> int option \<Rightarrow> int option" where
  "num_add (Some a) (Some b) = Some (a + b)"
| "num_add _ _ = None"

fun num_gt :: "int option \<Rightarrow> int \<Rightarrow> bool" where
  "num_gt (Some a) b = (a > b)"
| "num_gt None b = False"

section \<open>The flood fill\<close>

type_synonym point = "int \<times> int"

text \<open>
  The records of the worker. A field keeps its name where the name is free: the fields
  \<^verbatim>\<open>x\<close>, \<^verbatim>\<open>y\<close>, \<^verbatim>\<open>width\<close>, \<^verbatim>\<open>height\<close> of the bounds are \<open>b_x\<close>, \<open>b_y\<close>, \<open>b_width\<close>,
  \<open>b_height\<close>, the \<^verbatim>\<open>id\<close> of a segment is \<open>seg_id\<close>, and \<^verbatim>\<open>r\<close>, \<^verbatim>\<open>g\<close>, \<^verbatim>\<open>b\<close> of the target
  colour are \<open>col_r\<close>, \<open>col_g\<close>, \<open>col_b\<close>.
\<close>

record rgb =
  col_r :: "nat option"
  col_g :: "nat option"
  col_b :: "nat option"

record bounds =
  b_x :: int
  b_y :: int
  b_width :: int
  b_height :: int

record segment =
  seg_id :: string
  maskData :: "nat list"
  bounds :: bounds

text \<open>The local variables of \<^verbatim>\<open>floodFill\<close> that its loop changes.\<close>

record fill_state =
  queue :: "point list"
  mask :: "nat list"
  visited :: "nat list"
  minX :: int
  maxX :: int
  minY :: int
  maxY :: int
  pixelCount :: int

datatype 'a ctl = Continue 'a | Break 'a

fun ctl_state :: "'a ctl \<Rightarrow> 'a" where
  "ctl_state (Continue s) = s"
| "ctl_state (Break s) = s"

definition colorDiff :: "nat list \<Rightarrow> int \<Rightarrow> rgb \<Rightarrow> int option" where
  "colorDiff data pixelIdx targetColor =
     num_add (num_add (abs_diff (js_get data pixelIdx) (col_r targetColor))
                      (abs_diff (js_get data (pixelIdx + 1)) (col_g targetColor)))
             (abs_diff (js_get data (pixelIdx + 2)) (col_b targetColor))"

text \<open>
  One turn of the \<^verbatim>\<open>while\<close> loop of \<^verbatim>\<open>floodFill\<close>, after \<^verbatim>\<open>queue.shift()\<close> has
  taken the point \<open>(px, py)\<close> off the queue. The three \<^verbatim>\<open>continue\<close> statements and the
  fall through to the next turn are \<open>Continue\<close>, the \<^verbatim>\<open>break\<close> of the 50% cap is
  \<open>Break\<close>. \<^verbatim>\<open>pixelCount > width * height * 0.5\<close> is written without the fraction.
\<close>

definition loop_body ::
  "nat list \<Rightarrow> nat \<Rightarrow> nat \<Rightarrow> rgb \<Rightarrow> int \<Rightarrow> point \<Rightarrow> fill_state \<Rightarrow> fill_state ctl" where
  "loop_body data w h targetColor tolerance p s =
     (let px = fst p; py = snd p; idx = py * int w + px in
      if px < 0 \<or> px \<ge> int w \<or> py < 0 \<or> py \<ge> int h then Continue s
      else if truthy (js_get (visited s) idx) \<or> truthy (js_get (mask s) idx) then Continue s
      else if num_gt (colorDiff data (idx * 4) targetColor) tolerance then Continue s
      else
        let s' = s\<lparr>mask := js_set (mask s) idx 255,
                   visited := js_set (visited s) idx 1,
                   pixelCount := pixelCount s + 1,
                   minX := min (minX s) px,
                   maxX := max (maxX s) px,
                   minY := min (minY s) py,
                   maxY := max (maxY s) py,
                   queue := queue s @ [(px + 1, py), (px - 1, py), (px, py + 1), (px, py - 1)]\<rparr>
        in if 2 * pixelCount s' > int w * int h then Break s' else Continue s')"

function while_loop ::
  "nat list \<Rightarrow> nat \<Rightarrow> nat \<Rightarrow> rgb \<Rightarrow> int \<Rightarrow> fill_state \<Rightarrow> fill_state" where
  "while_loop data w h targetColor tolerance s =
     (case queue s of
        [] \<Rightarrow> s
      | p # rest \<Rightarrow>
          (case loop_body data w h targetColor tolerance p (s\<lparr>queue := rest\<rparr>) of
             Break s' \<Rightarrow> s'
           | Continue s' \<Rightarrow> while_loop data w h targetColor tolerance s'))"
  by pat_completeness auto
termination
proof (relation "measure (\<lambda>(data, w, h, tc, tol, s).
         2 * nat (int w * int h + 1 - 2 * pixelCount s) + length (queue s))")
  show "wf (measure (\<lambda>(data, w, h, tc, tol, s).
         2 * nat (int w * int h + 1 - 2 * pixelCount s) + length (queue s)))"
    by simp
next
  fix data :: "nat list" and w h :: nat and targetColor :: rgb and tolerance :: int
    and s s' :: fill_state and p :: point and rest :: "point list"
  assume q: "queue s = p # rest"
    and c: "loop_body data w h targetColor tolerance p (s\<lparr>queue := rest\<rparr>) = Continue s'"
  from c have "2 * nat (int w * int h + 1 - 2 * pixelCount s') + length (queue s')
           < 2 * nat (int w * int h + 1 - 2 * pixelCount s) + length rest + 1"
    by (auto simp: loop_body_def Let_def split: if_splits)
  with q show "((data, w, h, targetColor, tolerance, s'), (data, w, h, targetColor, tolerance, s))
          \<in> measure (\<lambda>(data, w, h, tc, tol, s).
               2 * nat (int w * int h + 1 - 2 * pixelCount s) + length (queue s))"
    by simp
qed

declare while_loop.simps [simp del]

text \<open>
  \<^verbatim>\<open>floodFill\<close>. The identifier \<^verbatim>\<open>`segment-${Date.now()}-${Math.random()}`\<close> depends on
  the clock and on the random generator: it is the argument \<open>ident\<close>. The function
  changes \<^verbatim>\<open>visited\<close> in place, so the model returns the new array beside the result;
  \<^verbatim>\<open>null\<close> is \<open>None\<close>.
\<close>

definition fill_init :: "int \<Rightarrow> int \<Rightarrow> nat \<Rightarrow> nat \<Rightarrow> nat list \<Rightarrow> fill_state" where
  "fill_init startX startY w h vis =
     \<lparr>queue = [(startX, startY)],
      mask = replicate (w * h) 0,
      visited = vis,
      minX = startX, maxX = startX, minY = startY, maxY = startY,
      pixelCount = 0\<rparr>"

definition targetColor_of :: "nat list \<Rightarrow> nat \<Rightarrow> int \<Rightarrow> int \<Rightarrow> rgb" where
  "targetColor_of data w startX startY =
     (let startIdx = (startY * int w + startX) * 4 in
      \<lparr>col_r = js_get data startIdx, col_g = js_get data (startIdx + 1),
       col_b = js_get data (startIdx + 2)\<rparr>)"

definition fill_final ::
  "nat list \<Rightarrow> nat \<Rightarrow> nat \<Rightarrow> int \<Rightarrow> int \<Rightarrow> nat list \<Rightarrow> int \<Rightarrow> fill_state" where
  "fill_final data w h startX startY vis tolerance =
     while_loop data w h (targetColor_of data w startX startY) tolerance
       (fill_init startX startY w h vis)"

definition floodFill ::
  "string \<Rightarrow> nat list \<Rightarrow> nat \<Rightarrow> nat \<Rightarrow> int \<Rightarrow> int \<Rightarrow> nat list \<Rightarrow> int
     \<Rightarrow> segment option \<times> nat list" where
  "floodFill ident data w h startX startY vis tolerance =
     (let s = fill_final data w h startX startY vis tolerance in
      (if pixelCount s < 100 then None
       else Some \<lparr>seg_id = ident, maskData = mask s,
                  bounds = \<lparr>b_x = minX s, b_y = minY s,
                            b_width = maxX s - minX s + 1,
                            b_height = maxY s - minY s + 1\<rparr>\<rparr>,
       visited s))"

section \<open>Seed sampling\<close>

text \<open>
  The two \<^verbatim>\<open>for\<close> loops of \<^verbatim>\<open>getSamplePoints\<close>. With a stride of 0 they do not advance,
  so they are partial functions: \<open>None\<close> is a loop that never ends.
\<close>

partial_function (option) inner_loop ::
  "int \<Rightarrow> int \<Rightarrow> int \<Rightarrow> int \<Rightarrow> point list \<Rightarrow> point list option" where
  "inner_loop step w py px points =
     (if px < w then inner_loop step w py (px + step) (points @ [(px, py)])
      else Some points)"

partial_function (option) outer_loop ::
  "int \<Rightarrow> int \<Rightarrow> int \<Rightarrow> int \<Rightarrow> point list \<Rightarrow> point list option" where
  "outer_loop step w h py points =
     (if py < h
      then do { points' \<leftarrow> inner_loop step w py step points;
                outer_loop step w h (py + step) points' }
      else Some points)"

declare inner_loop.simps [code]
declare outer_loop.simps [code]

text \<open>
  \<^verbatim>\<open>Math.floor(Math.sqrt((width * height) / count))\<close>, on real numbers. With \<^verbatim>\<open>count\<close> 0
  the quotient is \<^verbatim>\<open>Infinity\<close> or \<^verbatim>\<open>NaN\<close>, and so is the stride: both loop conditions are
  false at once and the result is the empty array.
\<close>

definition sample_step :: "nat \<Rightarrow> nat \<Rightarrow> nat \<Rightarrow> int" where
  "sample_step w h count = \<lfloor>sqrt (real (w * h) / real count)\<rfloor>"

definition getSamplePoints :: "nat \<Rightarrow> nat \<Rightarrow> nat \<Rightarrow> point list option" where
  "getSamplePoints w h count =
     (if count = 0 then Some []
      else let step = sample_step w h count in outer_loop step (int w) (int h) step [])"

text \<open>An integer square root, to run \<open>sample_step\<close> on numerals.\<close>

function floor_sqrt :: "nat \<Rightarrow> nat" where
  "floor_sqrt n =
     (if n = 0 then 0
      else let k = 2 * floor_sqrt (n div 4) in if (k + 1) * (k + 1) \<le> n then k + 1 else k)"
  by pat_completeness auto
termination
  by (relation "measure (\<lambda>n. n)") auto

declare floor_sqrt.simps [simp del]

section \<open>The local segmentation\<close>

record imageData =
  img_width :: nat
  img_height :: nat
  img_data :: "nat list"

text \<open>
  The loop over the sample points in \<^verbatim>\<open>performLocalSegmentation\<close>. \<open>ids\<close> supplies the
  identifier of the n-th call of \<^verbatim>\<open>floodFill\<close>. The tolerances are the literals of the
  two calls.
\<close>

definition click_tolerance :: int where
  "click_tolerance = 30"

definition auto_tolerance :: int where
  "auto_tolerance = 25"

fun auto_loop ::
  "(nat \<Rightarrow> string) \<Rightarrow> nat list \<Rightarrow> nat \<Rightarrow> nat \<Rightarrow> point list \<Rightarrow> nat \<Rightarrow> nat list
     \<Rightarrow> segment list \<Rightarrow> segment list" where
  "auto_loop ids data w h [] n vis segments = segments"
| "auto_loop ids data w h (point # points) n vis segments =
     (let idx = snd point * int w + fst point in
      if truthy (js_get vis idx) then auto_loop ids data w h points n vis segments
      else
        let (segment, vis') = floodFill (ids n) data w h (fst point) (snd point) vis auto_tolerance;
            segments' =
              (case segment of
                 None \<Rightarrow> segments
               | Some seg \<Rightarrow>
                   if b_width (bounds seg) > 20 \<and> b_height (bounds seg) > 20
                   then segments @ [seg] else segments)
        in if length segments' \<ge> 15 then segments'
           else auto_loop ids data w h points (n + 1) vis' segments')"

definition performLocalSegmentation ::
  "(nat \<Rightarrow> string) \<Rightarrow> imageData \<Rightarrow> point option \<Rightarrow> segment list option" where
  "performLocalSegmentation ids imgData clickPoint =
     (let w = img_width imgData; h = img_height imgData; data = img_data imgData;
          vis = replicate (w * h) 0
      in case clickPoint of
           Some cp \<Rightarrow>
             (case fst (floodFill (ids 0) data w h (fst cp) (snd cp) vis click_tolerance) of
                None \<Rightarrow> Some []
              | Some segment \<Rightarrow> Some [segment])
         | None \<Rightarrow>
             do { samplePoints \<leftarrow> getSamplePoints w h 20;
                  Some (auto_loop ids data w h samplePoints 0 vis []) })"

section \<open>Regions of the external service\<close>

text \<open>
  \<^verbatim>\<open>atob\<close> is the browser's decoder (forgiving base64): ASCII whitespace is dropped, up to
  two padding signs are dropped from a text whose length is a multiple of four, a
  length of 1 modulo 4 or a character outside the alphabet is an exception (\<open>None\<close>).
  Its result is held as the list of its character codes, which is what
  \<^verbatim>\<open>Uint8Array.from(atob(...), c => c.charCodeAt(0))\<close> makes of it.
\<close>

definition b64_value :: "char \<Rightarrow> nat option" where
  "b64_value c =
     (let n = (of_char c :: nat) in
      if 65 \<le> n \<and> n \<le> 90 then Some (n - 65)
      else if 97 \<le> n \<and> n \<le> 122 then Some (n - 71)
      else if 48 \<le> n \<and> n \<le> 57 then Some (n + 4)
      else if n = 43 then Some 62
      else if n = 47 then Some 63
      else None)"

fun b64_values :: "string \<Rightarrow> nat list option" where
  "b64_values [] = Some []"
| "b64_values (c # cs) =
     (case b64_value c of
        None \<Rightarrow> None
      | Some v \<Rightarrow> (case b64_values cs of None \<Rightarrow> None | Some vs \<Rightarrow> Some (v # vs)))"

fun b64_bytes :: "nat list \<Rightarrow> nat list" where
  "b64_bytes (v1 # v2 # v3 # v4 # vs) =
     (let n = ((v1 * 64 + v2) * 64 + v3) * 64 + v4
      in n div 65536 # (n div 256) mod 256 # n mod 256 # b64_bytes vs)"
| "b64_bytes [v1, v2, v3] =
     (let n = ((v1 * 64 + v2) * 64 + v3) div 4 in [n div 256, n mod 256])"
| "b64_bytes [v1, v2] = [(v1 * 64 + v2) div 16]"
| "b64_bytes _ = []"

definition strip_padding :: "string \<Rightarrow> string" where
  "strip_padding cs =
     (if length cs mod 4 = 0
      then (case rev cs of
              c1 # c2 # rest \<Rightarrow>
                if c1 = CHR ''='' \<and> c2 = CHR ''='' then rev rest
                else if c1 = CHR ''='' then rev (c2 # rest)
                else cs
            | _ \<Rightarrow> cs)
      else cs)"

definition atob :: "string \<Rightarrow> nat list option" where
  "atob encoded =
     (let cs = strip_padding
                 (filter (\<lambda>c. (of_char c :: nat) \<notin> {9, 10, 12, 13, 32}) encoded)
      in if length cs mod 4 = 1 then None
         else map_option b64_bytes (b64_values cs))"

record maskShape =
  shape_width :: int
  shape_height :: int

record apiSegment =
  api_id :: string
  api_maskData :: string
  api_maskShape :: maskShape
  api_bounds :: bounds

datatype log_entry = console_error string | console_warn string | console_log string

text \<open>
  \<^verbatim>\<open>fullMask.set(maskData)\<close> copies a typed array to the front of another and raises a
  \<^verbatim>\<open>RangeError\<close> (\<open>None\<close>) when the source is the longer one.
\<close>

definition typed_array_set :: "nat list \<Rightarrow> nat list \<Rightarrow> nat list option" where
  "typed_array_set target source =
     (if length source \<le> length target
      then Some (source @ drop (length source) target) else None)"

text \<open>
  \<^verbatim>\<open>convertAPISegment\<close>, with the lines it writes to the console. The \<^verbatim>\<open>try\<close> block catches
  the exception of \<^verbatim>\<open>atob\<close> and of the copy and answers \<^verbatim>\<open>null\<close>. A region of the
  service is taken to have the fields the worker reads, with integers for its shape.
\<close>

definition convertAPISegment ::
  "apiSegment \<Rightarrow> nat \<Rightarrow> nat \<Rightarrow> segment option \<times> log_entry list" where
  "convertAPISegment seg imageWidth imageHeight =
     (case atob (api_maskData seg) of
        None \<Rightarrow> (None, [console_error ''Error converting API segment:''])
      | Some decoded \<Rightarrow>
          let expectedSize = shape_width (api_maskShape seg) * shape_height (api_maskShape seg) in
          if int (length decoded) \<noteq> expectedSize
          then (None, [console_error ''Mask size mismatch''])
          else
            let fullMask = replicate (imageWidth * imageHeight) 0 in
            if shape_width (api_maskShape seg) = int imageWidth
               \<and> shape_height (api_maskShape seg) = int imageHeight
            then (case typed_array_set fullMask decoded of
                    None \<Rightarrow> (None, [console_error ''Error converting API segment:''])
                  | Some fullMask' \<Rightarrow>
                      (Some \<lparr>seg_id = api_id seg, maskData = fullMask',
                             bounds = api_bounds seg\<rparr>, []))
            else (Some \<lparr>seg_id = api_id seg, maskData = fullMask, bounds = api_bounds seg\<rparr>,
                  [console_warn ''Mask dimensions do not match image dimensions'']))"

text \<open>
  The message handler. \<open>Api_failure\<close> is every exception of its \<^verbatim>\<open>try\<close> block before the
  regions are converted: no canvas context, a rejected \<^verbatim>\<open>fetch\<close>, a response that is
  not ok, a body that is not JSON or holds no array of segments. \<open>Api_segments\<close> is the
  array \<^verbatim>\<open>data.segments\<close> of a successful answer. The message is of the one type
  \<^verbatim>\<open>'segment'\<close>. The result is the list of segments posted back, \<open>None\<close> when the handler
  never posts one, and the lines written to the console (without the exception that
  \<^verbatim>\<open>console.error\<close> prints beside its text).
\<close>

datatype api_reply = Api_failure | Api_segments "apiSegment list"

definition onmessage ::
  "(nat \<Rightarrow> string) \<Rightarrow> api_reply \<Rightarrow> imageData \<Rightarrow> point option
     \<Rightarrow> segment list option \<times> log_entry list" where
  "onmessage ids reply imgData clickPoint =
     (case reply of
        Api_segments segs \<Rightarrow>
          (let converted = map (\<lambda>seg. convertAPISegment seg (img_width imgData) (img_height imgData))
                             segs
           in (Some (map the (filter (\<lambda>seg. seg \<noteq> None) (map fst converted))),
               concat (map snd converted)))
      | Api_failure \<Rightarrow>
          (performLocalSegmentation ids imgData clickPoint,
           [console_error ''Segmentation error:'',
            console_log ''Falling back to local segmentation...'']))"

section \<open>Notions used in the proofs\<close>

text \<open>
  The test that lets the loop body take a pixel, and the assignments it makes then.
\<close>

definition accepts :: "nat list \<Rightarrow> nat \<Rightarrow> nat \<Rightarrow> rgb \<Rightarrow> int \<Rightarrow> point \<Rightarrow> fill_state \<Rightarrow> bool" where
  "accepts data w h tc tol p s \<longleftrightarrow>
     0 \<le> fst p \<and> fst p < int w \<and> 0 \<le> snd p \<and> snd p < int h
     \<and> \<not> truthy (js_get (visited s) (snd p * int w + fst p))
     \<and> \<not> truthy (js_get (mask s) (snd p * int w + fst p))
     \<and> \<not> num_gt (colorDiff data ((snd p * int w + fst p) * 4) tc) tol"

definition mark :: "nat \<Rightarrow> point \<Rightarrow> fill_state \<Rightarrow> fill_state" where
  "mark w p s =
     s\<lparr>mask := js_set (mask s) (snd p * int w + fst p) 255,
       visited := js_set (visited s) (snd p * int w + fst p) 1,
       pixelCount := pixelCount s + 1,
       minX := min (minX s) (fst p),
       maxX := max (maxX s) (fst p),
       minY := min (minY s) (snd p),
       maxY := max (maxY s) (snd p),
       queue := queue s @ [(fst p + 1, snd p), (fst p - 1, snd p),
                           (fst p, snd p + 1), (fst p, snd p - 1)]\<rparr>"


definition nonzero_at :: "nat list \<Rightarrow> nat \<Rightarrow> bool" where
  "nonzero_at m k \<longleftrightarrow> k < length m \<and> m ! k \<noteq> 0"

definition marked :: "nat \<Rightarrow> nat \<Rightarrow> nat list \<Rightarrow> int \<Rightarrow> int \<Rightarrow> bool" where
  "marked w h m px py \<longleftrightarrow>
     0 \<le> px \<and> px < int w \<and> 0 \<le> py \<and> py < int h \<and> truthy (js_get m (py * int w + px))"

definition mask_inv ::
  "nat list \<Rightarrow> nat \<Rightarrow> nat \<Rightarrow> rgb \<Rightarrow> int \<Rightarrow> nat list \<Rightarrow> fill_state \<Rightarrow> bool" where
  "mask_inv data w h tc tol v0 s \<longleftrightarrow>
     length (mask s) = w * h \<and> length (visited s) = length v0
     \<and> (\<forall>k. nonzero_at (mask s) k \<longrightarrow>
            mask s ! k = 255 \<and> \<not> nonzero_at v0 k
            \<and> \<not> num_gt (colorDiff data (int k * 4) tc) tol)
     \<and> (\<forall>k < length v0. visited s ! k = (if nonzero_at (mask s) k then 1 else v0 ! k))
     \<and> pixelCount s = int (card {k. nonzero_at (mask s) k})"

definition bbox_inv :: "nat \<Rightarrow> nat \<Rightarrow> int \<Rightarrow> int \<Rightarrow> fill_state \<Rightarrow> bool" where
  "bbox_inv w h sx sy s \<longleftrightarrow>
     (\<forall>px py. marked w h (mask s) px py \<longrightarrow>
        minX s \<le> px \<and> px \<le> maxX s \<and> minY s \<le> py \<and> py \<le> maxY s)
     \<and> (if \<exists>px py. marked w h (mask s) px py
        then (\<exists>py. marked w h (mask s) (minX s) py) \<and> (\<exists>py. marked w h (mask s) (maxX s) py)
           \<and> (\<exists>px. marked w h (mask s) px (minY s)) \<and> (\<exists>px. marked w h (mask s) px (maxY s))
        else set (queue s) \<subseteq> {(sx, sy)}
           \<and> minX s = sx \<and> maxX s = sx \<and> minY s = sy \<and> maxY s = sy)"

text \<open>The four points the loop body puts on the queue, and what the loop keeps true on
  an image whose pixels are all within the tolerance.\<close>

definition neighbours :: "int \<Rightarrow> int \<Rightarrow> point list" where
  "neighbours px py = [(px + 1, py), (px - 1, py), (px, py + 1), (px, py - 1)]"

definition frontier_inv :: "nat \<Rightarrow> nat \<Rightarrow> int \<Rightarrow> int \<Rightarrow> fill_state \<Rightarrow> bool" where
  "frontier_inv w h sx sy s \<longleftrightarrow>
     (\<forall>px py qx qy.
        marked w h (mask s) px py \<and> (qx, qy) \<in> set (neighbours px py)
        \<and> 0 \<le> qx \<and> qx < int w \<and> 0 \<le> qy \<and> qy < int h
        \<longrightarrow> marked w h (mask s) qx qy \<or> (qx, qy) \<in> set (queue s))
     \<and> (marked w h (mask s) sx sy \<or> (sx, sy) \<in> set (queue s))
     \<and> 2 * pixelCount s \<le> int w * int h"

definition start_box :: "int \<Rightarrow> int \<Rightarrow> fill_state \<Rightarrow> bool" where
  "start_box sx sy s \<longleftrightarrow> minX s \<le> sx \<and> sx \<le> maxX s \<and> minY s \<le> sy \<and> sy \<le> maxY s"

text \<open>
  The grid of the sample points, row by row: the multiples of the stride that are at
  least the stride and below the width, for each such multiple below the height. The
  row-major order compares the rows first.
\<close>

definition grid_row :: "int \<Rightarrow> int \<Rightarrow> int \<Rightarrow> point list" where
  "grid_row step w py = map (\<lambda>i. (i * step, py)) [1..(w - 1) div step]"

definition grid :: "int \<Rightarrow> int \<Rightarrow> int \<Rightarrow> point list" where
  "grid step w h = concat (map (\<lambda>j. grid_row step w (j * step)) [1..(h - 1) div step])"

definition row_major_less :: "point \<Rightarrow> point \<Rightarrow> bool" where
  "row_major_less p q \<longleftrightarrow> snd p < snd q \<or> (snd p = snd q \<and> fst p < fst q)"

text \<open>Two regions that share no pixel, and regions that lie in the visited pixels.\<close>

definition masks_disjoint :: "segment \<Rightarrow> segment \<Rightarrow> bool" where
  "masks_disjoint a c \<longleftrightarrow>
     (\<forall>k. \<not> (nonzero_at (maskData a) k \<and> nonzero_at (maskData c) k))"

definition covered_by :: "nat list \<Rightarrow> segment list \<Rightarrow> bool" where
  "covered_by vis segs \<longleftrightarrow>
     (\<forall>seg \<in> set segs. \<forall>k. nonzero_at (maskData seg) k \<longrightarrow> nonzero_at vis k)"

text \<open>
  The pixels one run of the flood fill may take: inside the image, not visited before
  the run, within the tolerance of the target colour. A rectangle of pixels.
\<close>

definition acceptable ::
  "nat list \<Rightarrow> nat \<Rightarrow> nat \<Rightarrow> rgb \<Rightarrow> int \<Rightarrow> nat list \<Rightarrow> int \<Rightarrow> int \<Rightarrow> bool" where
  "acceptable data w h tc tol vis px py \<longleftrightarrow>
     0 \<le> px \<and> px < int w \<and> 0 \<le> py \<and> py < int h
     \<and> \<not> truthy (js_get vis (py * int w + px))
     \<and> \<not> num_gt (colorDiff data ((py * int w + px) * 4) tc) tol"

definition region_inv ::
  "nat list \<Rightarrow> nat \<Rightarrow> nat \<Rightarrow> rgb \<Rightarrow> int \<Rightarrow> nat list \<Rightarrow> int \<Rightarrow> int \<Rightarrow> fill_state \<Rightarrow> bool" where
  "region_inv data w h tc tol vis sx sy s \<longleftrightarrow>
     (\<forall>px py qx qy.
        marked w h (mask s) px py \<and> (qx, qy) \<in> set (neighbours px py)
        \<and> acceptable data w h tc tol vis qx qy
        \<longrightarrow> marked w h (mask s) qx qy \<or> (qx, qy) \<in> set (queue s))
     \<and> (acceptable data w h tc tol vis sx sy
        \<longrightarrow> marked w h (mask s) sx sy \<or> (sx, sy) \<in> set (queue s))"

definition in_rect :: "nat \<Rightarrow> nat \<Rightarrow> nat \<Rightarrow> nat \<Rightarrow> int \<Rightarrow> int \<Rightarrow> bool" where
  "in_rect xl xr yt yb px py \<longleftrightarrow> int xl \<le> px \<and> px < int xr \<and> int yt \<le> py \<and> py < int yb"

section \<open>Concrete inputs\<close>

text \<open>A 2 by 2 image and a state of the loop after its start pixel was taken.\<close>

definition demo_data :: "nat list" where
  "demo_data = [10, 20, 30, 255,  12, 22, 33, 255,  200, 0, 0, 255,  10, 20, 30, 255]"

definition demo_state :: fill_state where
  "demo_state = \<lparr>queue = [(-1, 0), (0, 1), (0, -1)], mask = [255, 0, 0, 0],
                  visited = [1, 0, 0, 0], minX = 0, maxX = 0, minY = 0, maxY = 0,
                  pixelCount = 1\<rparr>"

text \<open>The answer of one region of the service that the worker is given in C8 and C9.\<close>

definition demo_bounds :: bounds where
  "demo_bounds = \<lparr>b_x = 0, b_y = 0, b_width = 1, b_height = 3\<rparr>"

definition reshaped_segment :: apiSegment where
  "reshaped_segment =
     \<lparr>api_id = ''r1'', api_maskData = ''////'',
      api_maskShape = \<lparr>shape_width = 1, shape_height = 3\<rparr>, api_bounds = demo_bounds\<rparr>"

definition short_segment :: apiSegment where
  "short_segment =
     \<lparr>api_id = ''r2'', api_maskData = ''////'',
      api_maskShape = \<lparr>shape_width = 50, shape_height = 50\<rparr>, api_bounds = demo_bounds\<rparr>"

definition solid_image :: imageData where
  "solid_image =
     \<lparr>img_width = 50, img_height = 50,
      img_data = concat (replicate (50 * 50) [200, 100, 50, 255])\<rparr>"

definition demo_ids :: "nat \<Rightarrow> string" where
  "demo_ids n = ''segment-'' @ replicate n CHR ''i''"

text \<open>
  An image given by the four bytes of each pixel, and a 42 by 21 image whose left half
  is red and whose right half is blue.
\<close>

definition image_of :: "nat \<Rightarrow> nat \<Rightarrow> (nat \<Rightarrow> nat \<Rightarrow> nat list) \<Rightarrow> nat list" where
  "image_of w h f = concat (map (\<lambda>k. f (k mod w) (k div w)) [0..<w * h])"

definition split_pixel :: "nat \<Rightarrow> nat \<Rightarrow> nat list" where
  "split_pixel px py = (if px < 21 then [255, 0, 0, 255] else [0, 0, 255, 255])"

definition split_image :: imageData where
  "split_image = \<lparr>img_width = 42, img_height = 21, img_data = image_of 42 21 split_pixel\<rparr>"

section \<open>Typed arrays and pixel indices\<close>

lemma length_js_set [simp]: "length (js_set xs i v) = length xs"
  by (simp add: js_set_def)

lemma js_get_js_set:
  "js_get (js_set xs i v) j =
     (if j = i \<and> 0 \<le> i \<and> i < int (length xs) then Some v else js_get xs j)"
  by (auto simp: js_get_def js_set_def nth_list_update)

lemma pixel_index_bounds:
  assumes "0 \<le> px" "px < int w" "0 \<le> py" "py < int h"
  shows "0 \<le> py * int w + px" and "py * int w + px < int (w * h)"
proof -
  show "0 \<le> py * int w + px" using assms by simp
  have "py + 1 \<le> int h" using assms by simp
  then have "(py + 1) * int w \<le> int h * int w"
    by (rule mult_right_mono) simp
  then show "py * int w + px < int (w * h)"
    using assms by (simp add: algebra_simps)
qed

lemma truthy_js_get_int: "truthy (js_get m (int k)) \<longleftrightarrow> nonzero_at m k"
  by (simp add: js_get_def nonzero_at_def)

lemma js_set_int: "k < length m \<Longrightarrow> js_set m (int k) v = m[k := v]"
  by (simp add: js_set_def)

lemma nonzero_at_update:
  "i < length m \<Longrightarrow> v \<noteq> 0 \<Longrightarrow> nonzero_at (m[i := v]) k \<longleftrightarrow> k = i \<or> nonzero_at m k"
  by (auto simp: nonzero_at_def nth_list_update)

lemma finite_nonzero_at: "finite {k. nonzero_at m k}"
  by (rule finite_subset [of _ "{..<length m}"]) (auto simp: nonzero_at_def)

lemma card_nonzero_at_update:
  assumes "i < length m" "v \<noteq> 0" "\<not> nonzero_at m i"
  shows "card {k. nonzero_at (m[i := v]) k} = Suc (card {k. nonzero_at m k})"
proof -
  have "{k. nonzero_at (m[i := v]) k} = insert i {k. nonzero_at m k}"
    using assms by (auto simp: nonzero_at_update)
  then show ?thesis using assms finite_nonzero_at [of m] by simp
qed

lemma pixel_index_nat:
  assumes "0 \<le> px" "px < int w" "0 \<le> py" "py < int h"
  shows "int (nat (py * int w + px)) = py * int w + px" and "nat (py * int w + px) < w * h"
  using pixel_index_bounds [OF assms] by (simp_all add: nat_less_iff)

lemma pixel_row_less:
  assumes "0 \<le> px" "qx < int w" "py < qy"
  shows "py * int w + qx < qy * int w + px"
proof -
  have "py + 1 \<le> qy" using assms by simp
  then have "(py + 1) * int w \<le> qy * int w"
    by (rule mult_right_mono) simp
  then show ?thesis using assms by (simp add: algebra_simps)
qed

lemma pixel_index_inj:
  assumes "0 \<le> px" "px < int w" "0 \<le> qx" "qx < int w"
    and eq: "py * int w + px = qy * int w + qx"
  shows "px = qx \<and> py = qy"
proof -
  have "\<not> py < qy"
  proof
    assume "py < qy"
    from pixel_row_less [OF assms(3) assms(2) this] eq show False by simp
  qed
  moreover have "\<not> qy < py"
  proof
    assume "qy < py"
    from pixel_row_less [OF assms(1) assms(4) this] eq show False by simp
  qed
  ultimately have "py = qy" by simp
  then show ?thesis using eq by simp
qed

lemma nonzero_marked:
  assumes "nonzero_at m k" "length m = w * h"
  shows "marked w h m (int (k mod w)) (int (k div w))"
proof -
  from assms have k: "k < w * h" and nz: "m ! k \<noteq> 0" by (simp_all add: nonzero_at_def)
  then have w: "0 < w" by (cases w) simp_all
  have "k < h * w" using k by (simp add: mult.commute)
  then have d: "k div w < h" by (rule less_mult_imp_div_less)
  have "int (k div w * w + k mod w) = int k" by (simp only: div_mult_mod_eq)
  then have idx: "int (k div w) * int w + int (k mod w) = int k"
    by (simp only: of_nat_add of_nat_mult)
  show ?thesis
    unfolding marked_def idx using w d assms by (simp add: truthy_js_get_int)
qed

lemma marked_index:
  assumes "marked w h m px py"
  shows "\<exists>k. nonzero_at m k \<and> k < w * h \<and> int (k mod w) = px \<and> int (k div w) = py"
proof -
  from assms have inb: "0 \<le> px" "px < int w" "0 \<le> py" "py < int h"
    and t: "truthy (js_get m (py * int w + px))"
    by (simp_all add: marked_def)
  define k where "k = nat py * w + nat px"
  have ik: "int k = py * int w + px" using inb by (simp add: k_def)
  have "int k < int (w * h)" using pixel_index_bounds(2) [OF inb] unfolding ik .
  then have "k < w * h" by (simp only: of_nat_less_iff)
  moreover have "nonzero_at m k" using t ik by (simp add: truthy_js_get_int [symmetric])
  moreover have "k mod w = nat px" "k div w = nat py" using inb by (simp_all add: k_def)
  ultimately show ?thesis using inb by auto
qed

section \<open>An invariant rule for the loop of the flood fill\<close>

lemma loop_body_eq:
  "loop_body data w h tc tol p s =
     (if accepts data w h tc tol p s
      then if 2 * (pixelCount s + 1) > int w * int h then Break (mark w p s)
           else Continue (mark w p s)
      else Continue s)"
  by (auto simp: loop_body_def accepts_def mark_def Let_def)

lemma while_loop_rule:
  assumes init: "I s"
    and reject: "\<And>s p rest. I s \<Longrightarrow> queue s = p # rest
                   \<Longrightarrow> \<not> accepts data w h tc tol p (s\<lparr>queue := rest\<rparr>) \<Longrightarrow> I (s\<lparr>queue := rest\<rparr>)"
    and accept: "\<And>s p rest. I s \<Longrightarrow> queue s = p # rest
                   \<Longrightarrow> accepts data w h tc tol p (s\<lparr>queue := rest\<rparr>)
                   \<Longrightarrow> 2 * (pixelCount s + 1) \<le> int w * int h
                   \<Longrightarrow> I (mark w p (s\<lparr>queue := rest\<rparr>))"
    and empty: "\<And>s. I s \<Longrightarrow> queue s = [] \<Longrightarrow> Q s"
    and cap: "\<And>s p rest. I s \<Longrightarrow> queue s = p # rest
                   \<Longrightarrow> accepts data w h tc tol p (s\<lparr>queue := rest\<rparr>)
                   \<Longrightarrow> 2 * (pixelCount s + 1) > int w * int h
                   \<Longrightarrow> Q (mark w p (s\<lparr>queue := rest\<rparr>))"
  shows "Q (while_loop data w h tc tol s)"
  using init
proof (induction "2 * nat (int w * int h + 1 - 2 * pixelCount s) + length (queue s)"
         arbitrary: s rule: less_induct)
  case less
  show ?case
  proof (cases "queue s")
    case Nil
    then show ?thesis using less.prems empty by (simp add: while_loop.simps)
  next
    case (Cons p rest)
    let ?s = "s\<lparr>queue := rest\<rparr>"
    show ?thesis
    proof (cases "accepts data w h tc tol p ?s")
      case False
      then have lb: "loop_body data w h tc tol p ?s = Continue ?s"
        by (simp add: loop_body_eq)
      have "I ?s" using reject [OF less.prems Cons False] .
      then have "Q (while_loop data w h tc tol ?s)"
        using less.hyps [of ?s] Cons by simp
      then show ?thesis using Cons lb by (subst while_loop.simps) simp
    next
      case True
      show ?thesis
      proof (cases "2 * (pixelCount s + 1) > int w * int h")
        case c: True
        then have lb: "loop_body data w h tc tol p ?s = Break (mark w p ?s)"
          using True by (simp add: loop_body_eq)
        show ?thesis using cap [OF less.prems Cons True c] Cons lb
          by (subst while_loop.simps) simp
      next
        case c: False
        then have lb: "loop_body data w h tc tol p ?s = Continue (mark w p ?s)"
          using True by (simp add: loop_body_eq)
        have "I (mark w p ?s)" using accept [OF less.prems Cons True] c by simp
        moreover have "2 * nat (int w * int h + 1 - 2 * pixelCount (mark w p ?s))
                         + length (queue (mark w p ?s))
                       < 2 * nat (int w * int h + 1 - 2 * pixelCount s) + length (queue s)"
          using c Cons by (simp add: mark_def)
        ultimately have "Q (while_loop data w h tc tol (mark w p ?s))"
          using less.hyps [of "mark w p ?s"] by simp
        then show ?thesis using Cons lb by (subst while_loop.simps) simp
      qed
    qed
  qed
qed

section \<open>Invariants of the flood fill\<close>

lemma mask_inv_init: "mask_inv data w h tc tol v0 (fill_init sx sy w h v0)"
  by (auto simp: mask_inv_def fill_init_def nonzero_at_def)

lemma mask_inv_reject:
  "mask_inv data w h tc tol v0 s \<Longrightarrow> mask_inv data w h tc tol v0 (s\<lparr>queue := rest\<rparr>)"
  by (simp add: mask_inv_def)

lemma mask_inv_accept:
  assumes inv: "mask_inv data w h tc tol v0 s"
    and acc: "accepts data w h tc tol p (s\<lparr>queue := rest\<rparr>)"
  shows "mask_inv data w h tc tol v0 (mark w p (s\<lparr>queue := rest\<rparr>))"
proof -
  define i where "i = nat (snd p * int w + fst p)"
  from acc have inb: "0 \<le> fst p" "fst p < int w" "0 \<le> snd p" "snd p < int h"
    by (simp_all add: accepts_def)
  have idx: "snd p * int w + fst p = int i" and i: "i < w * h"
    using pixel_index_nat [OF inb] by (simp_all add: i_def)
  from inv have len: "length (mask s) = w * h" "length (visited s) = length v0"
    by (simp_all add: mask_inv_def)
  from acc have nv: "\<not> nonzero_at (visited s) i" and nm: "\<not> nonzero_at (mask s) i"
    and col: "\<not> num_gt (colorDiff data (int i * 4) tc) tol"
    by (simp_all add: accepts_def idx truthy_js_get_int)
  have m': "mask (mark w p (s\<lparr>queue := rest\<rparr>)) = (mask s)[i := 255]"
    using i len by (simp add: mark_def idx js_set_int)
  have v': "visited (mark w p (s\<lparr>queue := rest\<rparr>)) = js_set (visited s) (int i) 1"
    by (simp add: mark_def idx)
  have c': "pixelCount (mark w p (s\<lparr>queue := rest\<rparr>)) = pixelCount s + 1"
    by (simp add: mark_def)
  have nz: "\<And>k. nonzero_at ((mask s)[i := 255]) k \<longleftrightarrow> k = i \<or> nonzero_at (mask s) k"
    using i len by (simp add: nonzero_at_update)
  have v0i: "\<not> nonzero_at v0 i"
  proof
    assume a: "nonzero_at v0 i"
    then have "i < length v0" by (simp add: nonzero_at_def)
    then have "visited s ! i = v0 ! i" using inv nm by (simp add: mask_inv_def)
    then show False using a nv len by (simp add: nonzero_at_def)
  qed
  have A: "length ((mask s)[i := 255]) = w * h" using len by simp
  have B: "length (js_set (visited s) (int i) 1) = length v0" using len by simp
  have C: "\<forall>k. nonzero_at ((mask s)[i := 255]) k \<longrightarrow>
            (mask s)[i := 255] ! k = 255 \<and> \<not> nonzero_at v0 k
            \<and> \<not> num_gt (colorDiff data (int k * 4) tc) tol"
  proof (intro allI impI)
    fix k assume "nonzero_at ((mask s)[i := 255]) k"
    then consider "k = i" | "k \<noteq> i" "nonzero_at (mask s) k" using nz by auto
    then show "(mask s)[i := 255] ! k = 255 \<and> \<not> nonzero_at v0 k
            \<and> \<not> num_gt (colorDiff data (int k * 4) tc) tol"
    proof cases
      case 1
      then show ?thesis using i len v0i col by simp
    next
      case 2
      then show ?thesis using inv by (simp add: mask_inv_def)
    qed
  qed
  have D: "\<forall>k < length v0. js_set (visited s) (int i) 1 ! k
             = (if nonzero_at ((mask s)[i := 255]) k then 1 else v0 ! k)"
  proof (intro allI impI)
    fix k assume k: "k < length v0"
    show "js_set (visited s) (int i) 1 ! k
             = (if nonzero_at ((mask s)[i := 255]) k then 1 else v0 ! k)"
    proof (cases "k = i")
      case True
      then show ?thesis using k len nz by (simp add: js_set_int)
    next
      case False
      have "js_set (visited s) (int i) 1 ! k = visited s ! k"
        using False by (simp add: js_set_def)
      then show ?thesis using False k inv nz by (simp add: mask_inv_def)
    qed
  qed
  have E: "pixelCount s + 1 = int (card {k. nonzero_at ((mask s)[i := 255]) k})"
    using card_nonzero_at_update [of i "mask s" 255] i len nm inv
    by (simp add: mask_inv_def)
  show ?thesis
    unfolding mask_inv_def m' v' c' using A B C D E by blast
qed

lemma marked_mark:
  assumes acc: "accepts data w h tc tol p s" and len: "length (mask s) = w * h"
  shows "marked w h (mask (mark w p s)) qx qy
           \<longleftrightarrow> (qx = fst p \<and> qy = snd p) \<or> marked w h (mask s) qx qy"
proof -
  from acc have inb: "0 \<le> fst p" "fst p < int w" "0 \<le> snd p" "snd p < int h"
    by (simp_all add: accepts_def)
  have rng: "0 \<le> snd p * int w + fst p" "snd p * int w + fst p < int (length (mask s))"
    using pixel_index_bounds [OF inb] len by simp_all
  have m': "mask (mark w p s) = js_set (mask s) (snd p * int w + fst p) 255"
    by (simp add: mark_def)
  show ?thesis
  proof (cases "qx = fst p \<and> qy = snd p")
    case True
    then show ?thesis using inb rng by (simp add: marked_def m' js_get_js_set)
  next
    case False
    have "0 \<le> qx \<Longrightarrow> qx < int w \<Longrightarrow> qy * int w + qx \<noteq> snd p * int w + fst p"
      using pixel_index_inj [of qx w "fst p" qy "snd p"] inb False by auto
    then show ?thesis using False by (auto simp: marked_def m' js_get_js_set)
  qed
qed

lemma not_truthy_replicate_zero: "\<not> truthy (js_get (replicate n 0) j)"
proof (cases "0 \<le> j \<and> j < int n")
  case True
  then have "nat j < n" by (simp add: nat_less_iff)
  then show ?thesis using True by (simp add: js_get_def)
next
  case False
  then have "js_get (replicate n 0) j = None" by (auto simp: js_get_def)
  then show ?thesis by simp
qed

lemma bbox_inv_init: "bbox_inv w h sx sy (fill_init sx sy w h v0)"
  by (simp add: bbox_inv_def fill_init_def marked_def not_truthy_replicate_zero)

lemma bbox_inv_reject:
  assumes "bbox_inv w h sx sy s" "queue s = p # rest"
  shows "bbox_inv w h sx sy (s\<lparr>queue := rest\<rparr>)"
proof (cases "\<exists>px py. marked w h (mask s) px py")
  case True
  then show ?thesis using assms(1) by (simp add: bbox_inv_def)
next
  case False
  have "set (queue s) \<subseteq> {(sx, sy)}" using assms(1) False by (simp add: bbox_inv_def)
  then have "set rest \<subseteq> {(sx, sy)}" using assms(2) by simp
  then show ?thesis using assms(1) False by (simp add: bbox_inv_def)
qed

lemma bbox_inv_accept:
  assumes inv: "bbox_inv w h sx sy s" and q: "queue s = p # rest"
    and acc: "accepts data w h tc tol p (s\<lparr>queue := rest\<rparr>)"
    and len: "length (mask s) = w * h"
  shows "bbox_inv w h sx sy (mark w p (s\<lparr>queue := rest\<rparr>))"
proof -
  let ?s' = "mark w p (s\<lparr>queue := rest\<rparr>)"
  have mm: "\<And>qx qy. marked w h (mask ?s') qx qy
              \<longleftrightarrow> (qx = fst p \<and> qy = snd p) \<or> marked w h (mask s) qx qy"
    using marked_mark [OF acc] len by simp
  have f: "minX ?s' = min (minX s) (fst p)" "maxX ?s' = max (maxX s) (fst p)"
          "minY ?s' = min (minY s) (snd p)" "maxY ?s' = max (maxY s) (snd p)"
    by (simp_all add: mark_def)
  have inside: "\<forall>px py. marked w h (mask ?s') px py \<longrightarrow>
        minX ?s' \<le> px \<and> px \<le> maxX ?s' \<and> minY ?s' \<le> py \<and> py \<le> maxY ?s'"
  proof (intro allI impI)
    fix px py
    assume "marked w h (mask ?s') px py"
    then consider "px = fst p" "py = snd p" | "marked w h (mask s) px py"
      using mm by blast
    then show "minX ?s' \<le> px \<and> px \<le> maxX ?s' \<and> minY ?s' \<le> py \<and> py \<le> maxY ?s'"
    proof cases
      case 1
      then show ?thesis unfolding f by simp
    next
      case 2
      with inv have "minX s \<le> px \<and> px \<le> maxX s \<and> minY s \<le> py \<and> py \<le> maxY s"
        by (simp add: bbox_inv_def)
      then show ?thesis unfolding f by (simp add: min_def max_def)
    qed
  qed
  have some: "\<exists>px py. marked w h (mask ?s') px py" using mm by blast
  have tight: "(\<exists>py. marked w h (mask ?s') (minX ?s') py)
             \<and> (\<exists>py. marked w h (mask ?s') (maxX ?s') py)
             \<and> (\<exists>px. marked w h (mask ?s') px (minY ?s'))
             \<and> (\<exists>px. marked w h (mask ?s') px (maxY ?s'))"
  proof (cases "\<exists>px py. marked w h (mask s) px py")
    case True
    with inv have old: "\<exists>py. marked w h (mask s) (minX s) py"
        "\<exists>py. marked w h (mask s) (maxX s) py"
        "\<exists>px. marked w h (mask s) px (minY s)"
        "\<exists>px. marked w h (mask s) px (maxY s)"
      unfolding bbox_inv_def by simp_all
    have 1: "\<exists>py. marked w h (mask ?s') (minX ?s') py"
      using old(1) unfolding mm f by (cases "minX s \<le> fst p") (auto simp: min_def)
    have 2: "\<exists>py. marked w h (mask ?s') (maxX ?s') py"
      using old(2) unfolding mm f by (cases "maxX s \<le> fst p") (auto simp: max_def)
    have 3: "\<exists>px. marked w h (mask ?s') px (minY ?s')"
      using old(3) unfolding mm f by (cases "minY s \<le> snd p") (auto simp: min_def)
    have 4: "\<exists>px. marked w h (mask ?s') px (maxY ?s')"
      using old(4) unfolding mm f by (cases "maxY s \<le> snd p") (auto simp: max_def)
    from 1 2 3 4 show ?thesis by blast
  next
    case False
    with inv q have "p = (sx, sy)" "minX s = sx" "maxX s = sx" "minY s = sy" "maxY s = sy"
      unfolding bbox_inv_def by simp_all
    then show ?thesis unfolding mm f by auto
  qed
  show ?thesis unfolding bbox_inv_def using inside some tight by simp
qed

lemma fill_final_inv:
  "mask_inv data w h (targetColor_of data w sx sy) tol vis (fill_final data w h sx sy vis tol)
   \<and> bbox_inv w h sx sy (fill_final data w h sx sy vis tol)"
  unfolding fill_final_def
proof (rule while_loop_rule
    [where I = "\<lambda>s. mask_inv data w h (targetColor_of data w sx sy) tol vis s
                    \<and> bbox_inv w h sx sy s"])
  show "mask_inv data w h (targetColor_of data w sx sy) tol vis (fill_init sx sy w h vis)
        \<and> bbox_inv w h sx sy (fill_init sx sy w h vis)"
    by (simp add: mask_inv_init bbox_inv_init)
next
  fix s p rest
  assume "mask_inv data w h (targetColor_of data w sx sy) tol vis s \<and> bbox_inv w h sx sy s"
    and "queue s = p # rest"
  then show "mask_inv data w h (targetColor_of data w sx sy) tol vis (s\<lparr>queue := rest\<rparr>)
        \<and> bbox_inv w h sx sy (s\<lparr>queue := rest\<rparr>)"
    using mask_inv_reject bbox_inv_reject by blast
next
  fix s p rest
  assume i: "mask_inv data w h (targetColor_of data w sx sy) tol vis s \<and> bbox_inv w h sx sy s"
    and q: "queue s = p # rest"
    and a: "accepts data w h (targetColor_of data w sx sy) tol p (s\<lparr>queue := rest\<rparr>)"
  from i have len: "length (mask s) = w * h" by (simp add: mask_inv_def)
  show "mask_inv data w h (targetColor_of data w sx sy) tol vis (mark w p (s\<lparr>queue := rest\<rparr>))
        \<and> bbox_inv w h sx sy (mark w p (s\<lparr>queue := rest\<rparr>))"
    using mask_inv_accept [OF _ a] bbox_inv_accept [OF _ q a len] i by blast
next
  fix s p rest
  assume i: "mask_inv data w h (targetColor_of data w sx sy) tol vis s \<and> bbox_inv w h sx sy s"
    and q: "queue s = p # rest"
    and a: "accepts data w h (targetColor_of data w sx sy) tol p (s\<lparr>queue := rest\<rparr>)"
  from i have len: "length (mask s) = w * h" by (simp add: mask_inv_def)
  show "mask_inv data w h (targetColor_of data w sx sy) tol vis (mark w p (s\<lparr>queue := rest\<rparr>))
        \<and> bbox_inv w h sx sy (mark w p (s\<lparr>queue := rest\<rparr>))"
    using mask_inv_accept [OF _ a] bbox_inv_accept [OF _ q a len] i by blast
qed

lemma js_get_in_range:
  "0 \<le> i \<Longrightarrow> i < int (length xs) \<Longrightarrow> js_get xs i = Some (xs ! nat i)"
  by (simp add: js_get_def)

lemma colorDiff_defined:
  assumes data: "length data = 4 * w * h"
    and p: "0 \<le> px" "px < int w" "0 \<le> py" "py < int h"
    and s: "0 \<le> sx" "sx < int w" "0 \<le> sy" "sy < int h"
  shows "colorDiff data ((py * int w + px) * 4) (targetColor_of data w sx sy) =
     Some (\<bar>int (data ! nat ((py * int w + px) * 4)) - int (data ! nat ((sy * int w + sx) * 4))\<bar>
         + \<bar>int (data ! nat ((py * int w + px) * 4 + 1))
              - int (data ! nat ((sy * int w + sx) * 4 + 1))\<bar>
         + \<bar>int (data ! nat ((py * int w + px) * 4 + 2))
              - int (data ! nat ((sy * int w + sx) * 4 + 2))\<bar>)"
proof -
  have len: "int (length data) = 4 * int (w * h)" using data by simp
  have a: "0 \<le> (py * int w + px) * 4" "(py * int w + px) * 4 + 2 < int (length data)"
    using pixel_index_bounds [OF p] unfolding len by simp_all
  have b: "0 \<le> (sy * int w + sx) * 4" "(sy * int w + sx) * 4 + 2 < int (length data)"
    using pixel_index_bounds [OF s] unfolding len by simp_all
  have "js_get data ((py * int w + px) * 4) = Some (data ! nat ((py * int w + px) * 4))"
    "js_get data ((py * int w + px) * 4 + 1) = Some (data ! nat ((py * int w + px) * 4 + 1))"
    "js_get data ((py * int w + px) * 4 + 2) = Some (data ! nat ((py * int w + px) * 4 + 2))"
    "js_get data ((sy * int w + sx) * 4) = Some (data ! nat ((sy * int w + sx) * 4))"
    "js_get data ((sy * int w + sx) * 4 + 1) = Some (data ! nat ((sy * int w + sx) * 4 + 1))"
    "js_get data ((sy * int w + sx) * 4 + 2) = Some (data ! nat ((sy * int w + sx) * 4 + 2))"
    using a b by (simp_all add: js_get_in_range)
  then show ?thesis
    by (simp add: colorDiff_def targetColor_of_def Let_def)
qed

section \<open>The acceptance test of the flood fill\<close>

text \<open>
  Claim C1. On an image buffer of width * height * 4 bytes and with the start pixel
  inside the image, one turn of the loop of \<open>floodFill\<close> on the point \<open>(px, py)\<close>
  takes the pixel into the region (sets its mask entry to 255, marks it visited and
  counts it) if and only if the point is inside the image, its entry of the shared
  visited array is not set, its entry of the mask of this run is not set, and the
  absolute differences of its red, green and blue bytes from those of the start pixel
  add up to at most the tolerance; the alpha byte is not read. Otherwise the turn
  leaves the state as it is.
\<close>

theorem floodFill_accepts_iff:
  assumes data: "length data = 4 * w * h"
    and start: "0 \<le> startX" "startX < int w" "0 \<le> startY" "startY < int h"
  shows "let idx = py * int w + px;
             startIdx = startY * int w + startX;
             s' = ctl_state (loop_body data w h (targetColor_of data w startX startY)
                               tolerance (px, py) s);
             accepted = (mask s' = js_set (mask s) idx 255
                         \<and> visited s' = js_set (visited s) idx 1
                         \<and> pixelCount s' = pixelCount s + 1)
         in (accepted \<longleftrightarrow>
               0 \<le> px \<and> px < int w \<and> 0 \<le> py \<and> py < int h
               \<and> \<not> truthy (js_get (visited s) idx)
               \<and> \<not> truthy (js_get (mask s) idx)
               \<and> \<bar>int (data ! nat (idx * 4)) - int (data ! nat (startIdx * 4))\<bar>
                 + \<bar>int (data ! nat (idx * 4 + 1)) - int (data ! nat (startIdx * 4 + 1))\<bar>
                 + \<bar>int (data ! nat (idx * 4 + 2)) - int (data ! nat (startIdx * 4 + 2))\<bar>
                 \<le> tolerance)
            \<and> (\<not> accepted \<longrightarrow> s' = s)"
proof (cases "accepts data w h (targetColor_of data w startX startY) tolerance (px, py) s")
  case True
  then have p: "0 \<le> px" "px < int w" "0 \<le> py" "py < int h" by (simp_all add: accepts_def)
  have "ctl_state (loop_body data w h (targetColor_of data w startX startY)
                               tolerance (px, py) s) = mark w (px, py) s"
    using True by (simp add: loop_body_eq)
  then show ?thesis
    using True colorDiff_defined [OF data p start]
    by (simp add: Let_def accepts_def mark_def)
next
  case False
  then have eq: "ctl_state (loop_body data w h (targetColor_of data w startX startY)
                               tolerance (px, py) s) = s"
    by (simp add: loop_body_eq)
  have "\<not> (0 \<le> px \<and> px < int w \<and> 0 \<le> py \<and> py < int h
               \<and> \<not> truthy (js_get (visited s) (py * int w + px))
               \<and> \<not> truthy (js_get (mask s) (py * int w + px))
               \<and> \<bar>int (data ! nat ((py * int w + px) * 4))
                    - int (data ! nat ((startY * int w + startX) * 4))\<bar>
                 + \<bar>int (data ! nat ((py * int w + px) * 4 + 1))
                    - int (data ! nat ((startY * int w + startX) * 4 + 1))\<bar>
                 + \<bar>int (data ! nat ((py * int w + px) * 4 + 2))
                    - int (data ! nat ((startY * int w + startX) * 4 + 2))\<bar>
                 \<le> tolerance)"
  proof
    assume a: "0 \<le> px \<and> px < int w \<and> 0 \<le> py \<and> py < int h
               \<and> \<not> truthy (js_get (visited s) (py * int w + px))
               \<and> \<not> truthy (js_get (mask s) (py * int w + px))
               \<and> \<bar>int (data ! nat ((py * int w + px) * 4))
                    - int (data ! nat ((startY * int w + startX) * 4))\<bar>
                 + \<bar>int (data ! nat ((py * int w + px) * 4 + 1))
                    - int (data ! nat ((startY * int w + startX) * 4 + 1))\<bar>
                 + \<bar>int (data ! nat ((py * int w + px) * 4 + 2))
                    - int (data ! nat ((startY * int w + startX) * 4 + 2))\<bar>
                 \<le> tolerance"
    then have p: "0 \<le> px" "px < int w" "0 \<le> py" "py < int h" by simp_all
    from a colorDiff_defined [OF data p start]
    have "accepts data w h (targetColor_of data w startX startY) tolerance (px, py) s"
      by (simp add: accepts_def)
    with False show False ..
  qed
  then show ?thesis unfolding Let_def eq by simp
qed

theorem floodFill_accepts_iff_witness:
  "length demo_data = 4 * 2 * 2
   \<and> mask (ctl_state (loop_body demo_data 2 2 (targetColor_of demo_data 2 0 0) 30 (1, 0)
                        demo_state)) = [255, 255, 0, 0]
   \<and> ctl_state (loop_body demo_data 2 2 (targetColor_of demo_data 2 0 0) 30 (0, 1)
                        demo_state) = demo_state"
proof -
  have d: "length demo_data = 4 * 2 * 2" by (simp add: demo_data_def)
  have 1: "mask (ctl_state (loop_body demo_data 2 2 (targetColor_of demo_data 2 0 0) 30 (1, 0)
                        demo_state)) = [255, 255, 0, 0]"
    using floodFill_accepts_iff [OF d, where startX = 0 and startY = 0 and px = 1 and py = 0
        and tolerance = 30 and s = demo_state]
    by (simp add: Let_def demo_data_def demo_state_def js_get_def js_set_def)
  have 2: "ctl_state (loop_body demo_data 2 2 (targetColor_of demo_data 2 0 0) 30 (0, 1)
                        demo_state) = demo_state"
    using floodFill_accepts_iff [OF d, where startX = 0 and startY = 0 and px = 0 and py = 1
        and tolerance = 30 and s = demo_state]
    by (simp add: Let_def demo_data_def demo_state_def js_get_def js_set_def)
  from d 1 2 show ?thesis by simp
qed

section \<open>The result of the flood fill\<close>

lemma floodFill_Some:
  assumes "fst (floodFill ident data w h sx sy vis tol) = Some seg"
  shows "maskData seg = mask (fill_final data w h sx sy vis tol)"
    and "b_x (bounds seg) = minX (fill_final data w h sx sy vis tol)"
    and "b_y (bounds seg) = minY (fill_final data w h sx sy vis tol)"
    and "b_width (bounds seg) = maxX (fill_final data w h sx sy vis tol)
                                 - minX (fill_final data w h sx sy vis tol) + 1"
    and "b_height (bounds seg) = maxY (fill_final data w h sx sy vis tol)
                                 - minY (fill_final data w h sx sy vis tol) + 1"
    and "100 \<le> pixelCount (fill_final data w h sx sy vis tol)"
    and "seg_id seg = ident"
  using assms by (auto simp: floodFill_def Let_def split: if_splits)

lemma floodFill_visited:
  "snd (floodFill ident data w h sx sy vis tol) = visited (fill_final data w h sx sy vis tol)"
  by (simp add: floodFill_def Let_def)

lemma fill_final_count:
  "pixelCount (fill_final data w h sx sy vis tol)
     = int (card {k. k < w * h \<and> mask (fill_final data w h sx sy vis tol) ! k \<noteq> 0})"
  using fill_final_inv [of data w h sx sy tol vis]
  by (simp add: mask_inv_def nonzero_at_def)

lemma fill_final_nonzero:
  assumes "k < w * h" "mask (fill_final data w h sx sy vis tol) ! k \<noteq> 0"
  shows "mask (fill_final data w h sx sy vis tol) ! k = 255"
    and "\<not> truthy (js_get vis (int k))"
    and "\<not> num_gt (colorDiff data (int k * 4) (targetColor_of data w sx sy)) tol"
    and "minX (fill_final data w h sx sy vis tol) \<le> int (k mod w)"
    and "int (k mod w) \<le> maxX (fill_final data w h sx sy vis tol)"
    and "minY (fill_final data w h sx sy vis tol) \<le> int (k div w)"
    and "int (k div w) \<le> maxY (fill_final data w h sx sy vis tol)"
proof -
  let ?s = "fill_final data w h sx sy vis tol"
  from fill_final_inv [of data w h sx sy tol vis]
  have mi: "mask_inv data w h (targetColor_of data w sx sy) tol vis ?s"
    and bi: "bbox_inv w h sx sy ?s" by simp_all
  from mi have len: "length (mask ?s) = w * h" by (simp add: mask_inv_def)
  have nz: "nonzero_at (mask ?s) k" using assms len by (simp add: nonzero_at_def)
  with mi show "mask ?s ! k = 255" "\<not> truthy (js_get vis (int k))"
    "\<not> num_gt (colorDiff data (int k * 4) (targetColor_of data w sx sy)) tol"
    by (simp_all add: mask_inv_def truthy_js_get_int)
  have "marked w h (mask ?s) (int (k mod w)) (int (k div w))"
    using nonzero_marked [OF nz len] .
  with bi show "minX ?s \<le> int (k mod w)" "int (k mod w) \<le> maxX ?s"
    "minY ?s \<le> int (k div w)" "int (k div w) \<le> maxY ?s"
    by (simp_all add: bbox_inv_def)
qed

lemma fill_final_tight:
  assumes "0 < pixelCount (fill_final data w h sx sy vis tol)"
  shows "\<exists>k. k < w * h \<and> mask (fill_final data w h sx sy vis tol) ! k \<noteq> 0
             \<and> int (k mod w) = minX (fill_final data w h sx sy vis tol)"
    and "\<exists>k. k < w * h \<and> mask (fill_final data w h sx sy vis tol) ! k \<noteq> 0
             \<and> int (k mod w) = maxX (fill_final data w h sx sy vis tol)"
    and "\<exists>k. k < w * h \<and> mask (fill_final data w h sx sy vis tol) ! k \<noteq> 0
             \<and> int (k div w) = minY (fill_final data w h sx sy vis tol)"
    and "\<exists>k. k < w * h \<and> mask (fill_final data w h sx sy vis tol) ! k \<noteq> 0
             \<and> int (k div w) = maxY (fill_final data w h sx sy vis tol)"
proof -
  let ?s = "fill_final data w h sx sy vis tol"
  from fill_final_inv [of data w h sx sy tol vis]
  have mi: "mask_inv data w h (targetColor_of data w sx sy) tol vis ?s"
    and bi: "bbox_inv w h sx sy ?s" by simp_all
  from mi have len: "length (mask ?s) = w * h" by (simp add: mask_inv_def)
  from mi assms have "card {k. nonzero_at (mask ?s) k} \<noteq> 0" by (simp add: mask_inv_def)
  then have "{k. nonzero_at (mask ?s) k} \<noteq> {}" by (metis card.empty)
  then obtain k where "nonzero_at (mask ?s) k" by blast
  from nonzero_marked [OF this len] have ex: "\<exists>px py. marked w h (mask ?s) px py" by blast
  with bi have t: "\<exists>py. marked w h (mask ?s) (minX ?s) py" "\<exists>py. marked w h (mask ?s) (maxX ?s) py"
    "\<exists>px. marked w h (mask ?s) px (minY ?s)" "\<exists>px. marked w h (mask ?s) px (maxY ?s)"
    by (simp_all add: bbox_inv_def)
  show "\<exists>k. k < w * h \<and> mask ?s ! k \<noteq> 0 \<and> int (k mod w) = minX ?s"
    using t(1) marked_index [of w h "mask ?s"] by (fastforce simp: nonzero_at_def)
  show "\<exists>k. k < w * h \<and> mask ?s ! k \<noteq> 0 \<and> int (k mod w) = maxX ?s"
    using t(2) marked_index [of w h "mask ?s"] by (fastforce simp: nonzero_at_def)
  show "\<exists>k. k < w * h \<and> mask ?s ! k \<noteq> 0 \<and> int (k div w) = minY ?s"
    using t(3) marked_index [of w h "mask ?s"] by (fastforce simp: nonzero_at_def)
  show "\<exists>k. k < w * h \<and> mask ?s ! k \<noteq> 0 \<and> int (k div w) = maxY ?s"
    using t(4) marked_index [of w h "mask ?s"] by (fastforce simp: nonzero_at_def)
qed

lemma fill_final_length:
  "length (mask (fill_final data w h sx sy vis tol)) = w * h"
  using fill_final_inv [of data w h sx sy tol vis] by (simp add: mask_inv_def)

text \<open>
  Claim C2. \<open>floodFill\<close> answers none exactly when the final count of accepted pixels
  is below 100, and that count is the number of nonzero entries of the mask. Otherwise
  it answers a region whose mask has width * height entries; an entry is nonzero only
  where the loop accepted the pixel (it is then 255, the pixel was not visited before
  the call and its colour is within the tolerance), and all such pixels lie in the
  bounding box. The box is the least one: its left and right columns and its top and
  bottom rows each hold an accepted pixel, so that its width is maxX - minX + 1 and its
  height maxY - minY + 1 over the accepted pixels.
\<close>

theorem floodFill_result:
  "(fst (floodFill ident data w h startX startY vis tolerance) = None
      \<longleftrightarrow> pixelCount (fill_final data w h startX startY vis tolerance) < 100)
   \<and> pixelCount (fill_final data w h startX startY vis tolerance)
       = int (card {k. k < w * h
                       \<and> mask (fill_final data w h startX startY vis tolerance) ! k \<noteq> 0})
   \<and> (\<forall>seg. fst (floodFill ident data w h startX startY vis tolerance) = Some seg \<longrightarrow>
         maskData seg = mask (fill_final data w h startX startY vis tolerance)
         \<and> length (maskData seg) = w * h
         \<and> (\<forall>k. k < w * h \<and> maskData seg ! k \<noteq> 0 \<longrightarrow>
                maskData seg ! k = 255
                \<and> \<not> truthy (js_get vis (int k))
                \<and> \<not> num_gt (colorDiff data (int k * 4)
                               (targetColor_of data w startX startY)) tolerance
                \<and> b_x (bounds seg) \<le> int (k mod w)
                \<and> int (k mod w) \<le> b_x (bounds seg) + b_width (bounds seg) - 1
                \<and> b_y (bounds seg) \<le> int (k div w)
                \<and> int (k div w) \<le> b_y (bounds seg) + b_height (bounds seg) - 1)
         \<and> (\<exists>k. k < w * h \<and> maskData seg ! k \<noteq> 0 \<and> int (k mod w) = b_x (bounds seg))
         \<and> (\<exists>k. k < w * h \<and> maskData seg ! k \<noteq> 0
                 \<and> int (k mod w) = b_x (bounds seg) + b_width (bounds seg) - 1)
         \<and> (\<exists>k. k < w * h \<and> maskData seg ! k \<noteq> 0 \<and> int (k div w) = b_y (bounds seg))
         \<and> (\<exists>k. k < w * h \<and> maskData seg ! k \<noteq> 0
                 \<and> int (k div w) = b_y (bounds seg) + b_height (bounds seg) - 1)
         \<and> b_width (bounds seg) = maxX (fill_final data w h startX startY vis tolerance)
                                   - minX (fill_final data w h startX startY vis tolerance) + 1
         \<and> b_height (bounds seg) = maxY (fill_final data w h startX startY vis tolerance)
                                   - minY (fill_final data w h startX startY vis tolerance) + 1)"
proof (intro conjI allI impI)
  show "fst (floodFill ident data w h startX startY vis tolerance) = None
      \<longleftrightarrow> pixelCount (fill_final data w h startX startY vis tolerance) < 100"
    by (simp add: floodFill_def Let_def)
  show "pixelCount (fill_final data w h startX startY vis tolerance)
       = int (card {k. k < w * h
                       \<and> mask (fill_final data w h startX startY vis tolerance) ! k \<noteq> 0})"
    by (rule fill_final_count)
next
  fix seg
  assume s: "fst (floodFill ident data w h startX startY vis tolerance) = Some seg"
  note f = floodFill_Some [OF s]
  have pos: "0 < pixelCount (fill_final data w h startX startY vis tolerance)"
    using f(6) by simp
  note t = fill_final_tight [OF pos]
  show "maskData seg = mask (fill_final data w h startX startY vis tolerance)" by (rule f(1))
  show "length (maskData seg) = w * h" unfolding f(1) by (rule fill_final_length)
  show "\<exists>k. k < w * h \<and> maskData seg ! k \<noteq> 0 \<and> int (k mod w) = b_x (bounds seg)"
    unfolding f using t(1) .
  show "\<exists>k. k < w * h \<and> maskData seg ! k \<noteq> 0
                 \<and> int (k mod w) = b_x (bounds seg) + b_width (bounds seg) - 1"
    unfolding f using t(2) by simp
  show "\<exists>k. k < w * h \<and> maskData seg ! k \<noteq> 0 \<and> int (k div w) = b_y (bounds seg)"
    unfolding f using t(3) .
  show "\<exists>k. k < w * h \<and> maskData seg ! k \<noteq> 0
                 \<and> int (k div w) = b_y (bounds seg) + b_height (bounds seg) - 1"
    unfolding f using t(4) by simp
  show "b_width (bounds seg) = maxX (fill_final data w h startX startY vis tolerance)
                                   - minX (fill_final data w h startX startY vis tolerance) + 1"
    by (rule f(4))
  show "b_height (bounds seg) = maxY (fill_final data w h startX startY vis tolerance)
                                   - minY (fill_final data w h startX startY vis tolerance) + 1"
    by (rule f(5))
  fix k
  assume k: "k < w * h \<and> maskData seg ! k \<noteq> 0"
  then have k1: "k < w * h" and k2: "mask (fill_final data w h startX startY vis tolerance) ! k \<noteq> 0"
    unfolding f(1) by simp_all
  note n = fill_final_nonzero [OF k1 k2]
  show "maskData seg ! k = 255" unfolding f(1) by (rule n(1))
  show "\<not> truthy (js_get vis (int k))" by (rule n(2))
  show "\<not> num_gt (colorDiff data (int k * 4) (targetColor_of data w startX startY)) tolerance"
    by (rule n(3))
  show "b_x (bounds seg) \<le> int (k mod w)" unfolding f by (rule n(4))
  show "int (k mod w) \<le> b_x (bounds seg) + b_width (bounds seg) - 1"
    unfolding f using n(5) by simp
  show "b_y (bounds seg) \<le> int (k div w)" unfolding f by (rule n(6))
  show "int (k div w) \<le> b_y (bounds seg) + b_height (bounds seg) - 1"
    unfolding f using n(7) by simp
qed

section \<open>The flood fill on an image within the tolerance\<close>

lemma interval_closed:
  fixes a i :: int
  assumes a: "lo \<le> a" "a < hi" "P a"
    and up: "\<And>j. lo \<le> j \<Longrightarrow> j + 1 < hi \<Longrightarrow> P j \<Longrightarrow> P (j + 1)"
    and down: "\<And>j. lo \<le> j - 1 \<Longrightarrow> j < hi \<Longrightarrow> P j \<Longrightarrow> P (j - 1)"
    and i: "lo \<le> i" "i < hi"
  shows "P i"
proof (cases "a \<le> i")
  case True
  then have "i < hi \<longrightarrow> P i"
  proof (induction i rule: int_ge_induct)
    case base
    then show ?case using a by simp
  next
    case (step j)
    show ?case
    proof
      assume "j + 1 < hi"
      then show "P (j + 1)" using step a up [of j] by simp
    qed
  qed
  then show ?thesis using i by simp
next
  case False
  then have "i \<le> a" by simp
  then have "lo \<le> i \<longrightarrow> P i"
  proof (induction i rule: int_le_induct)
    case base
    then show ?case using a by simp
  next
    case (step j)
    show ?case
    proof
      assume "lo \<le> j - 1"
      then show "P (j - 1)" using step a down [of j] by simp
    qed
  qed
  then show ?thesis using i by simp
qed

lemma grid_closed:
  assumes start: "marked w h m sx sy"
    and closed: "\<And>px py qx qy. marked w h m px py \<Longrightarrow> (qx, qy) \<in> set (neighbours px py)
                  \<Longrightarrow> 0 \<le> qx \<Longrightarrow> qx < int w \<Longrightarrow> 0 \<le> qy \<Longrightarrow> qy < int h
                  \<Longrightarrow> marked w h m qx qy"
    and p: "0 \<le> px" "px < int w" "0 \<le> py" "py < int h"
  shows "marked w h m px py"
proof -
  from start have s: "0 \<le> sx" "sx < int w" "0 \<le> sy" "sy < int h"
    by (simp_all add: marked_def)
  have row: "marked w h m px sy"
  proof (rule interval_closed [where P = "\<lambda>i. marked w h m i sy" and a = sx and lo = 0
        and hi = "int w"])
    show "0 \<le> sx" "sx < int w" "marked w h m sx sy" "0 \<le> px" "px < int w"
      using s start p by simp_all
  next
    fix j assume "0 \<le> j" "j + 1 < int w" "marked w h m j sy"
    then show "marked w h m (j + 1) sy"
      using closed [of j sy "j + 1" sy] s by (simp add: neighbours_def)
  next
    fix j assume "0 \<le> j - 1" "j < int w" "marked w h m j sy"
    then show "marked w h m (j - 1) sy"
      using closed [of j sy "j - 1" sy] s by (simp add: neighbours_def)
  qed
  show ?thesis
  proof (rule interval_closed [where P = "\<lambda>i. marked w h m px i" and a = sy and lo = 0
        and hi = "int h"])
    show "0 \<le> sy" "sy < int h" "marked w h m px sy" "0 \<le> py" "py < int h"
      using s row p by simp_all
  next
    fix j assume "0 \<le> j" "j + 1 < int h" "marked w h m px j"
    then show "marked w h m px (j + 1)"
      using closed [of px j px "j + 1"] p by (simp add: neighbours_def)
  next
    fix j assume "0 \<le> j - 1" "j < int h" "marked w h m px j"
    then show "marked w h m px (j - 1)"
      using closed [of px j px "j - 1"] p by (simp add: neighbours_def)
  qed
qed

lemma all_marked_card:
  assumes all: "\<And>px py. 0 \<le> px \<Longrightarrow> px < int w \<Longrightarrow> 0 \<le> py \<Longrightarrow> py < int h
                  \<Longrightarrow> marked w h m px py"
    and len: "length m = w * h"
  shows "card {k. nonzero_at m k} = w * h"
proof -
  have "{k. nonzero_at m k} = {..<w * h}"
  proof (rule set_eqI)
    fix k
    show "k \<in> {k. nonzero_at m k} \<longleftrightarrow> k \<in> {..<w * h}"
    proof
      assume "k \<in> {k. nonzero_at m k}"
      then show "k \<in> {..<w * h}" using len by (simp add: nonzero_at_def)
    next
      assume "k \<in> {..<w * h}"
      then have k: "k < w * h" by simp
      then have w: "0 < w" by (cases w) simp_all
      have "k < h * w" using k by (simp add: mult.commute)
      then have d: "k div w < h" by (rule less_mult_imp_div_less)
      have "marked w h m (int (k mod w)) (int (k div w))"
        using all [of "int (k mod w)" "int (k div w)"] w d by simp
      moreover have "int (k div w * w + k mod w) = int k" by (simp only: div_mult_mod_eq)
      then have "int (k div w) * int w + int (k mod w) = int k"
        by (simp only: of_nat_add of_nat_mult)
      ultimately have "truthy (js_get m (int k))" by (simp add: marked_def)
      then show "k \<in> {k. nonzero_at m k}" by (simp add: truthy_js_get_int)
    qed
  qed
  then show ?thesis by simp
qed

lemma accepts_queue [simp]:
  "accepts data w h tc tol p (s\<lparr>queue := q\<rparr>) = accepts data w h tc tol p s"
  by (simp add: accepts_def)

lemma rejected_is_marked:
  assumes mi: "mask_inv data w h tc tol vis s"
    and fresh: "\<And>k. \<not> nonzero_at vis k"
    and uni: "\<And>px py. 0 \<le> px \<Longrightarrow> px < int w \<Longrightarrow> 0 \<le> py \<Longrightarrow> py < int h
                \<Longrightarrow> \<not> num_gt (colorDiff data ((py * int w + px) * 4) tc) tol"
    and inb: "0 \<le> fst p" "fst p < int w" "0 \<le> snd p" "snd p < int h"
    and rej: "\<not> accepts data w h tc tol p s"
  shows "marked w h (mask s) (fst p) (snd p)"
proof -
  define k where "k = nat (snd p * int w + fst p)"
  have idx: "snd p * int w + fst p = int k"
    using pixel_index_nat(1) [OF inb] by (simp add: k_def)
  from rej inb uni [OF inb]
  have "truthy (js_get (visited s) (int k)) \<or> truthy (js_get (mask s) (int k))"
    by (simp add: accepts_def idx)
  then have "nonzero_at (mask s) k"
  proof
    assume "truthy (js_get (visited s) (int k))"
    then have v: "nonzero_at (visited s) k" by (simp add: truthy_js_get_int)
    then have kl: "k < length vis" using mi by (simp add: nonzero_at_def mask_inv_def)
    then have "visited s ! k = (if nonzero_at (mask s) k then 1 else vis ! k)"
      using mi by (simp add: mask_inv_def)
    moreover have "vis ! k = 0" using fresh [of k] kl by (simp add: nonzero_at_def)
    ultimately show ?thesis using v by (auto simp: nonzero_at_def split: if_splits)
  next
    assume "truthy (js_get (mask s) (int k))"
    then show ?thesis by (simp add: truthy_js_get_int)
  qed
  then show ?thesis using inb by (simp add: marked_def idx truthy_js_get_int)
qed

lemma frontier_inv_init:
  "frontier_inv w h sx sy (fill_init sx sy w h vis)"
  by (simp add: frontier_inv_def fill_init_def marked_def not_truthy_replicate_zero)

lemma frontier_inv_reject:
  assumes inv: "frontier_inv w h sx sy s" and q: "queue s = p # rest"
    and pm: "0 \<le> fst p \<Longrightarrow> fst p < int w \<Longrightarrow> 0 \<le> snd p \<Longrightarrow> snd p < int h
               \<Longrightarrow> marked w h (mask s) (fst p) (snd p)"
    and sinb: "0 \<le> sx" "sx < int w" "0 \<le> sy" "sy < int h"
  shows "frontier_inv w h sx sy (s\<lparr>queue := rest\<rparr>)"
proof -
  have step: "marked w h (mask s) qx qy \<or> (qx, qy) \<in> set rest"
    if "marked w h (mask s) qx qy \<or> (qx, qy) \<in> set (queue s)"
      and "0 \<le> qx" "qx < int w" "0 \<le> qy" "qy < int h" for qx qy
  proof (cases "(qx, qy) = p")
    case True
    then show ?thesis using pm that by auto
  next
    case False
    then show ?thesis using that q by auto
  qed
  have nb: "\<forall>px py qx qy.
        marked w h (mask s) px py \<and> (qx, qy) \<in> set (neighbours px py)
        \<and> 0 \<le> qx \<and> qx < int w \<and> 0 \<le> qy \<and> qy < int h
        \<longrightarrow> marked w h (mask s) qx qy \<or> (qx, qy) \<in> set rest"
  proof (intro allI impI)
    fix px py qx qy
    assume a: "marked w h (mask s) px py \<and> (qx, qy) \<in> set (neighbours px py)
        \<and> 0 \<le> qx \<and> qx < int w \<and> 0 \<le> qy \<and> qy < int h"
    with inv have "marked w h (mask s) qx qy \<or> (qx, qy) \<in> set (queue s)"
      unfolding frontier_inv_def by blast
    then show "marked w h (mask s) qx qy \<or> (qx, qy) \<in> set rest"
      using step a by blast
  qed
  have st: "marked w h (mask s) sx sy \<or> (sx, sy) \<in> set rest"
  proof (cases "(sx, sy) = p")
    case True
    then show ?thesis using pm sinb by auto
  next
    case False
    then show ?thesis using inv q by (auto simp: frontier_inv_def)
  qed
  show ?thesis using nb st inv by (simp add: frontier_inv_def)
qed

lemma frontier_inv_accept:
  assumes inv: "frontier_inv w h sx sy s" and q: "queue s = p # rest"
    and acc: "accepts data w h tc tol p (s\<lparr>queue := rest\<rparr>)"
    and len: "length (mask s) = w * h"
    and cap: "2 * (pixelCount s + 1) \<le> int w * int h"
  shows "frontier_inv w h sx sy (mark w p (s\<lparr>queue := rest\<rparr>))"
proof -
  let ?s' = "mark w p (s\<lparr>queue := rest\<rparr>)"
  have mm: "\<And>qx qy. marked w h (mask ?s') qx qy
              \<longleftrightarrow> (qx = fst p \<and> qy = snd p) \<or> marked w h (mask s) qx qy"
    using marked_mark [OF acc] len by simp
  have qq: "set (queue ?s') = set rest \<union> set (neighbours (fst p) (snd p))"
    by (simp add: mark_def neighbours_def)
  have pc: "pixelCount ?s' = pixelCount s + 1" by (simp add: mark_def)
  have old: "marked w h (mask ?s') qx qy \<or> (qx, qy) \<in> set (queue ?s')"
    if "marked w h (mask s) qx qy \<or> (qx, qy) \<in> set (queue s)" for qx qy
    using that q unfolding mm qq by (cases "(qx, qy) = p") auto
  have nb: "\<forall>px py qx qy.
        marked w h (mask ?s') px py \<and> (qx, qy) \<in> set (neighbours px py)
        \<and> 0 \<le> qx \<and> qx < int w \<and> 0 \<le> qy \<and> qy < int h
        \<longrightarrow> marked w h (mask ?s') qx qy \<or> (qx, qy) \<in> set (queue ?s')"
  proof (intro allI impI)
    fix px py qx qy
    assume a: "marked w h (mask ?s') px py \<and> (qx, qy) \<in> set (neighbours px py)
        \<and> 0 \<le> qx \<and> qx < int w \<and> 0 \<le> qy \<and> qy < int h"
    then consider "px = fst p" "py = snd p" | "marked w h (mask s) px py"
      using mm by blast
    then show "marked w h (mask ?s') qx qy \<or> (qx, qy) \<in> set (queue ?s')"
    proof cases
      case 1
      then show ?thesis using a unfolding qq by simp
    next
      case 2
      with inv a have "marked w h (mask s) qx qy \<or> (qx, qy) \<in> set (queue s)"
        unfolding frontier_inv_def by blast
      then show ?thesis by (rule old)
    qed
  qed
  have st: "marked w h (mask ?s') sx sy \<or> (sx, sy) \<in> set (queue ?s')"
    using inv old [of sx sy] by (simp add: frontier_inv_def)
  show ?thesis unfolding frontier_inv_def pc using nb st cap by simp
qed

lemma frontier_inv_empty:
  assumes inv: "frontier_inv w h sx sy s" and q: "queue s = []"
    and mi: "mask_inv data w h tc tol vis s"
  shows False
proof -
  from inv q have start: "marked w h (mask s) sx sy" by (simp add: frontier_inv_def)
  from mi have len: "length (mask s) = w * h" by (simp add: mask_inv_def)
  have closed: "marked w h (mask s) qx qy"
    if "marked w h (mask s) px py" "(qx, qy) \<in> set (neighbours px py)"
      "0 \<le> qx" "qx < int w" "0 \<le> qy" "qy < int h" for px py qx qy
    using inv q that unfolding frontier_inv_def by (metis empty_iff empty_set)
  have all: "marked w h (mask s) px py"
    if "0 \<le> px" "px < int w" "0 \<le> py" "py < int h" for px py
    using grid_closed [OF start closed that] by simp
  have "card {k. nonzero_at (mask s) k} = w * h"
    using all_marked_card [OF all len] by simp
  then have "pixelCount s = int w * int h" using mi by (simp add: mask_inv_def)
  moreover have "2 * pixelCount s \<le> int w * int h" using inv by (simp add: frontier_inv_def)
  moreover have "0 < int w * int h" using start by (simp add: marked_def)
  ultimately show False by simp
qed

lemma half_count:
  fixes c n :: int
  shows "2 * c \<le> n \<Longrightarrow> n < 2 * (c + 1) \<Longrightarrow> c + 1 = n div 2 + 1"
  by presburger

lemma start_box_mark:
  "start_box sx sy s \<Longrightarrow> start_box sx sy (mark w p (s\<lparr>queue := rest\<rparr>))"
  by (auto simp: start_box_def mark_def)

lemma fill_final_uniform:
  assumes sinb: "0 \<le> sx" "sx < int w" "0 \<le> sy" "sy < int h"
    and fresh: "\<And>k. \<not> nonzero_at vis k"
    and uni: "\<And>px py. 0 \<le> px \<Longrightarrow> px < int w \<Longrightarrow> 0 \<le> py \<Longrightarrow> py < int h
                \<Longrightarrow> \<not> num_gt (colorDiff data ((py * int w + px) * 4)
                              (targetColor_of data w sx sy)) tol"
  shows "pixelCount (fill_final data w h sx sy vis tol) = (int w * int h) div 2 + 1
         \<and> start_box sx sy (fill_final data w h sx sy vis tol)
         \<and> queue (fill_final data w h sx sy vis tol) \<noteq> []"
  unfolding fill_final_def
proof (rule while_loop_rule
    [where I = "\<lambda>s. mask_inv data w h (targetColor_of data w sx sy) tol vis s
                    \<and> frontier_inv w h sx sy s \<and> start_box sx sy s"])
  show "mask_inv data w h (targetColor_of data w sx sy) tol vis (fill_init sx sy w h vis)
        \<and> frontier_inv w h sx sy (fill_init sx sy w h vis)
        \<and> start_box sx sy (fill_init sx sy w h vis)"
    by (simp add: mask_inv_init frontier_inv_init) (simp add: start_box_def fill_init_def)
next
  fix s p rest
  assume i: "mask_inv data w h (targetColor_of data w sx sy) tol vis s
        \<and> frontier_inv w h sx sy s \<and> start_box sx sy s"
    and q: "queue s = p # rest"
    and r: "\<not> accepts data w h (targetColor_of data w sx sy) tol p (s\<lparr>queue := rest\<rparr>)"
  from i have mi: "mask_inv data w h (targetColor_of data w sx sy) tol vis s" by simp
  have pm: "marked w h (mask s) (fst p) (snd p)"
    if "0 \<le> fst p" "fst p < int w" "0 \<le> snd p" "snd p < int h"
    using rejected_is_marked [OF mi fresh uni that] r by simp
  have "frontier_inv w h sx sy (s\<lparr>queue := rest\<rparr>)"
    using frontier_inv_reject [OF _ q pm sinb] i by simp
  moreover have "start_box sx sy (s\<lparr>queue := rest\<rparr>)" using i by (simp add: start_box_def)
  ultimately show "mask_inv data w h (targetColor_of data w sx sy) tol vis (s\<lparr>queue := rest\<rparr>)
        \<and> frontier_inv w h sx sy (s\<lparr>queue := rest\<rparr>) \<and> start_box sx sy (s\<lparr>queue := rest\<rparr>)"
    using mask_inv_reject [OF mi] by simp
next
  fix s p rest
  assume i: "mask_inv data w h (targetColor_of data w sx sy) tol vis s
        \<and> frontier_inv w h sx sy s \<and> start_box sx sy s"
    and q: "queue s = p # rest"
    and a: "accepts data w h (targetColor_of data w sx sy) tol p (s\<lparr>queue := rest\<rparr>)"
    and c: "2 * (pixelCount s + 1) \<le> int w * int h"
  from i have len: "length (mask s) = w * h" by (simp add: mask_inv_def)
  show "mask_inv data w h (targetColor_of data w sx sy) tol vis (mark w p (s\<lparr>queue := rest\<rparr>))
        \<and> frontier_inv w h sx sy (mark w p (s\<lparr>queue := rest\<rparr>))
        \<and> start_box sx sy (mark w p (s\<lparr>queue := rest\<rparr>))"
    using mask_inv_accept [OF _ a] frontier_inv_accept [OF _ q a len c] start_box_mark i
    by blast
next
  fix s
  assume i: "mask_inv data w h (targetColor_of data w sx sy) tol vis s
        \<and> frontier_inv w h sx sy s \<and> start_box sx sy s"
    and q: "queue s = []"
  then have False using frontier_inv_empty by blast
  then show "pixelCount s = int w * int h div 2 + 1 \<and> start_box sx sy s \<and> queue s \<noteq> []" ..
next
  fix s p rest
  assume i: "mask_inv data w h (targetColor_of data w sx sy) tol vis s
        \<and> frontier_inv w h sx sy s \<and> start_box sx sy s"
    and q: "queue s = p # rest"
    and a: "accepts data w h (targetColor_of data w sx sy) tol p (s\<lparr>queue := rest\<rparr>)"
    and c: "int w * int h < 2 * (pixelCount s + 1)"
  from i have "2 * pixelCount s \<le> int w * int h" by (simp add: frontier_inv_def)
  then have "pixelCount s + 1 = int w * int h div 2 + 1" using c by (rule half_count)
  moreover have "pixelCount (mark w p (s\<lparr>queue := rest\<rparr>)) = pixelCount s + 1"
    by (simp add: mark_def)
  moreover have "queue (mark w p (s\<lparr>queue := rest\<rparr>)) \<noteq> []"
    by (simp add: mark_def)
  ultimately show "pixelCount (mark w p (s\<lparr>queue := rest\<rparr>)) = int w * int h div 2 + 1
        \<and> start_box sx sy (mark w p (s\<lparr>queue := rest\<rparr>))
        \<and> queue (mark w p (s\<lparr>queue := rest\<rparr>)) \<noteq> []"
    using start_box_mark i by simp
qed

lemma length_solid: "length (concat (replicate n [cr, cg, cb, ca])) = 4 * n"
  by (induction n) simp_all

lemma nth_concat_replicate:
  "k < n \<Longrightarrow> c < length xs \<Longrightarrow> concat (replicate n xs) ! (length xs * k + c) = xs ! c"
proof (induction n arbitrary: k)
  case 0
  then show ?case by simp
next
  case (Suc n)
  show ?case
  proof (cases k)
    case 0
    then show ?thesis using Suc.prems by (simp add: nth_append)
  next
    case (Suc j)
    then have "j < n" using Suc.prems by simp
    from Suc.IH [OF this Suc.prems(2)] Suc show ?thesis
      by (simp add: nth_append)
  qed
qed

lemma nth_solid:
  assumes "k < n" "c < 4"
  shows "concat (replicate n [cr, cg, cb, ca]) ! (4 * k + c) = [cr, cg, cb, ca] ! c"
proof -
  have l: "length [cr, cg, cb, ca] = 4" by simp
  have "c < length [cr, cg, cb, ca]" using assms by simp
  from nth_concat_replicate [OF assms(1) this] show ?thesis unfolding l .
qed

lemma js_get_solid:
  assumes "0 \<le> i" "i < int n" "c < 4"
  shows "js_get (concat (replicate n [cr, cg, cb, ca])) (i * 4 + int c) = Some ([cr, cg, cb, ca] ! c)"
proof -
  have "i * 4 + int c = int (4 * nat i + c)" using assms by simp
  moreover have "4 * nat i + c < 4 * n" using assms by linarith
  moreover have "nat i < n" using assms by simp
  ultimately show ?thesis
    using nth_solid [of "nat i" n c cr cg cb ca] assms(3)
    by (simp only: js_get_def length_solid nat_int of_nat_0_le_iff of_nat_less_iff) simp
qed

lemma colorDiff_solid:
  assumes p: "0 \<le> px" "px < int w" "0 \<le> py" "py < int h"
    and s: "0 \<le> sx" "sx < int w" "0 \<le> sy" "sy < int h"
  shows "colorDiff (concat (replicate (w * h) [cr, cg, cb, ca])) ((py * int w + px) * 4)
           (targetColor_of (concat (replicate (w * h) [cr, cg, cb, ca])) w sx sy) = Some 0"
proof -
  let ?d = "concat (replicate (w * h) [cr, cg, cb, ca])"
  note a = pixel_index_bounds [OF p]
  note b = pixel_index_bounds [OF s]
  have g: "js_get ?d ((py * int w + px) * 4) = Some cr"
    "js_get ?d ((py * int w + px) * 4 + 1) = Some cg"
    "js_get ?d ((py * int w + px) * 4 + 2) = Some cb"
    using js_get_solid [OF a, of 0 cr cg cb ca] js_get_solid [OF a, of 1 cr cg cb ca]
      js_get_solid [OF a, of 2 cr cg cb ca] by simp_all
  have t: "js_get ?d ((sy * int w + sx) * 4) = Some cr"
    "js_get ?d ((sy * int w + sx) * 4 + 1) = Some cg"
    "js_get ?d ((sy * int w + sx) * 4 + 2) = Some cb"
    using js_get_solid [OF b, of 0 cr cg cb ca] js_get_solid [OF b, of 1 cr cg cb ca]
      js_get_solid [OF b, of 2 cr cg cb ca] by simp_all
  show ?thesis
    unfolding colorDiff_def targetColor_of_def Let_def rgb.select_convs g t by simp
qed

lemma nonzero_at_replicate_zero: "\<not> nonzero_at (replicate n 0) k"
  by (simp add: nonzero_at_def)

lemma fill_final_solid:
  assumes s: "0 \<le> sx" "sx < int w" "0 \<le> sy" "sy < int h" and tol: "0 \<le> tol"
  shows "pixelCount (fill_final (concat (replicate (w * h) [cr, cg, cb, ca])) w h sx sy
                       (replicate (w * h) 0) tol) = (int w * int h) div 2 + 1"
    and "start_box sx sy (fill_final (concat (replicate (w * h) [cr, cg, cb, ca])) w h sx sy
                       (replicate (w * h) 0) tol)"
    and "queue (fill_final (concat (replicate (w * h) [cr, cg, cb, ca])) w h sx sy
                       (replicate (w * h) 0) tol) \<noteq> []"
proof -
  let ?d = "concat (replicate (w * h) [cr, cg, cb, ca])"
  have uni: "\<not> num_gt (colorDiff ?d ((py * int w + px) * 4) (targetColor_of ?d w sx sy)) tol"
    if "0 \<le> px" "px < int w" "0 \<le> py" "py < int h" for px py
    using colorDiff_solid [OF that s] tol by simp
  note r = fill_final_uniform [OF s nonzero_at_replicate_zero uni, of "w * h"]
  show "pixelCount (fill_final ?d w h sx sy (replicate (w * h) 0) tol) = (int w * int h) div 2 + 1"
    using r by simp
  show "start_box sx sy (fill_final ?d w h sx sy (replicate (w * h) 0) tol)"
    using r by simp
  show "queue (fill_final ?d w h sx sy (replicate (w * h) 0) tol) \<noteq> []"
    using r by simp
qed

lemma floodFill_box_in_image:
  assumes s: "fst (floodFill ident data w h sx sy vis tol) = Some seg"
  shows "0 \<le> b_x (bounds seg)" and "1 \<le> b_width (bounds seg)"
    and "b_x (bounds seg) + b_width (bounds seg) \<le> int w"
    and "0 \<le> b_y (bounds seg)" and "1 \<le> b_height (bounds seg)"
    and "b_y (bounds seg) + b_height (bounds seg) \<le> int h"
proof -
  let ?s = "fill_final data w h sx sy vis tol"
  note f = floodFill_Some [OF s]
  have pos: "0 < pixelCount ?s" using f(6) by simp
  note t = fill_final_tight [OF pos]
  from t(1) obtain k1 where k1: "k1 < w * h" "mask ?s ! k1 \<noteq> 0" "int (k1 mod w) = minX ?s"
    by blast
  from t(2) obtain k2 where k2: "k2 < w * h" "mask ?s ! k2 \<noteq> 0" "int (k2 mod w) = maxX ?s"
    by blast
  from t(3) obtain k3 where k3: "k3 < w * h" "mask ?s ! k3 \<noteq> 0" "int (k3 div w) = minY ?s"
    by blast
  from t(4) obtain k4 where k4: "k4 < w * h" "mask ?s ! k4 \<noteq> 0" "int (k4 div w) = maxY ?s"
    by blast
  have w: "0 < w" using k1(1) by (cases w) simp_all
  have "k4 < h * w" using k4(1) by (simp add: mult.commute)
  then have d4: "k4 div w < h" by (rule less_mult_imp_div_less)
  have m2: "k2 mod w < w" using w by simp
  show "0 \<le> b_x (bounds seg)" unfolding f using k1(3) [symmetric] by simp
  show "0 \<le> b_y (bounds seg)" unfolding f using k3(3) [symmetric] by simp
  show "1 \<le> b_width (bounds seg)"
    unfolding f using fill_final_nonzero(5) [OF k1(1) k1(2)] k1(3) by simp
  show "1 \<le> b_height (bounds seg)"
    unfolding f using fill_final_nonzero(7) [OF k3(1) k3(2)] k3(3) by simp
  show "b_x (bounds seg) + b_width (bounds seg) \<le> int w"
    unfolding f using k2(3) [symmetric] m2 by simp
  show "b_y (bounds seg) + b_height (bounds seg) \<le> int h"
    unfolding f using k4(3) [symmetric] d4 by simp
qed

lemma floodFill_solid_Some:
  assumes s: "0 \<le> sx" "sx < int w" "0 \<le> sy" "sy < int h" and tol: "0 \<le> tol"
    and big: "198 \<le> int w * int h"
  shows "\<exists>seg. fst (floodFill ident (concat (replicate (w * h) [cr, cg, cb, ca])) w h sx sy
                       (replicate (w * h) 0) tol) = Some seg"
proof -
  have "pixelCount (fill_final (concat (replicate (w * h) [cr, cg, cb, ca])) w h sx sy
                       (replicate (w * h) 0) tol) = (int w * int h) div 2 + 1"
    by (rule fill_final_solid(1) [OF s tol])
  moreover have "99 \<le> (int w * int h) div 2" using big by simp
  ultimately show ?thesis by (simp add: floodFill_def Let_def)
qed

text \<open>A solid 20 by 10 image filled from its corner: the fill answers a region.\<close>

theorem floodFill_result_witness:
  "\<exists>seg. fst (floodFill ''segment-0'' (concat (replicate (20 * 10) [200, 100, 50, 255])) 20 10 0 0
                  (replicate (20 * 10) 0) 30) = Some seg
         \<and> length (maskData seg) = 200
         \<and> (\<exists>k. k < 200 \<and> maskData seg ! k \<noteq> 0 \<and> int (k mod 20) = b_x (bounds seg))
         \<and> card {k. k < 200 \<and> maskData seg ! k \<noteq> 0} = 101"
proof -
  let ?d = "concat (replicate (20 * 10) [200, 100, 50, 255])"
  let ?s = "fill_final ?d 20 10 0 0 (replicate (20 * 10) 0) 30"
  have c: "pixelCount ?s = 101"
    using fill_final_solid(1) [of 0 20 0 10 30 200 100 50 255] by simp
  note r = floodFill_result [of "''segment-0''" ?d 20 10 0 0 "replicate (20 * 10) 0" 30]
  from r c have "fst (floodFill ''segment-0'' ?d 20 10 0 0 (replicate (20 * 10) 0) 30) \<noteq> None"
    by simp
  then obtain seg where s: "fst (floodFill ''segment-0'' ?d 20 10 0 0 (replicate (20 * 10) 0) 30)
      = Some seg" by blast
  from r s have m: "maskData seg = mask ?s" and l: "length (maskData seg) = 20 * 10"
    and t: "\<exists>k. k < 20 * 10 \<and> maskData seg ! k \<noteq> 0 \<and> int (k mod 20) = b_x (bounds seg)"
    by blast+
  from r c have "int (card {k. k < 20 * 10 \<and> mask ?s ! k \<noteq> 0}) = 101" by simp
  then have "card {k. k < 200 \<and> maskData seg ! k \<noteq> 0} = 101" unfolding m by simp
  with s l t show ?thesis by simp
qed

section \<open>The 50% cap on a solid image\<close>

text \<open>
  Claim C3, as stated: on a solid 50 by 50 image, tolerance 30, start (25, 25), the run
  ends with at most 1250 accepted pixels. The loop tests the cap after it has counted
  the pixel, so the run ends with 1251.
\<close>

theorem solid_50_click_count_counterexample:
  "\<not> pixelCount (fill_final (concat (replicate (50 * 50) [200, 100, 50, 255])) 50 50 25 25
                    (replicate (50 * 50) 0) 30) \<le> 1250"
  using fill_final_solid(1) [of 25 50 25 50 30 200 100 50 255] by simp

text \<open>
  Claim C3, amended. On a solid 50 by 50 image of any colour, with tolerance 30, fresh
  visited array and start (25, 25), the cap ends the run: the count of accepted pixels
  is exactly 1251, the first count above half of the 2500 pixels, and the queue is not
  empty at the end. The click mode answers one region; its mask has 1251 nonzero
  entries, and its bounding box lies inside the image and holds the start pixel.
\<close>

theorem solid_50_click:
  "pixelCount (fill_final (concat (replicate (50 * 50) [cr, cg, cb, ca])) 50 50 25 25
                 (replicate (50 * 50) 0) 30) = 1251
   \<and> queue (fill_final (concat (replicate (50 * 50) [cr, cg, cb, ca])) 50 50 25 25
                 (replicate (50 * 50) 0) 30) \<noteq> []
   \<and> (\<exists>seg. performLocalSegmentation ids
                \<lparr>img_width = 50, img_height = 50,
                 img_data = concat (replicate (50 * 50) [cr, cg, cb, ca])\<rparr> (Some (25, 25))
              = Some [seg]
            \<and> fst (floodFill (ids 0) (concat (replicate (50 * 50) [cr, cg, cb, ca])) 50 50 25 25
                 (replicate (50 * 50) 0) 30) = Some seg
            \<and> card {k. k < 50 * 50 \<and> maskData seg ! k \<noteq> 0} = 1251
            \<and> 0 \<le> b_x (bounds seg) \<and> b_x (bounds seg) \<le> 25
            \<and> 25 < b_x (bounds seg) + b_width (bounds seg)
            \<and> b_x (bounds seg) + b_width (bounds seg) \<le> 50
            \<and> 0 \<le> b_y (bounds seg) \<and> b_y (bounds seg) \<le> 25
            \<and> 25 < b_y (bounds seg) + b_height (bounds seg)
            \<and> b_y (bounds seg) + b_height (bounds seg) \<le> 50)"
proof -
  let ?d = "concat (replicate (50 * 50) [cr, cg, cb, ca])"
  let ?v = "replicate (50 * 50) (0::nat)"
  let ?s = "fill_final ?d 50 50 25 25 ?v 30"
  note fs = fill_final_solid [of 25 50 25 50 30 cr cg cb ca]
  have c: "pixelCount ?s = 1251" using fs(1) by simp
  have q: "queue ?s \<noteq> []" using fs(3) by simp
  have sb: "minX ?s \<le> 25" "25 \<le> maxX ?s" "minY ?s \<le> 25" "25 \<le> maxY ?s"
    using fs(2) by (simp_all add: start_box_def)
  obtain seg where s: "fst (floodFill (ids 0) ?d 50 50 25 25 ?v 30) = Some seg"
    using floodFill_solid_Some [of 25 50 25 50 30 "ids 0" cr cg cb ca] by auto
  note f = floodFill_Some [OF s]
  note bx = floodFill_box_in_image [OF s]
  have p: "performLocalSegmentation ids \<lparr>img_width = 50, img_height = 50, img_data = ?d\<rparr>
             (Some (25, 25)) = Some [seg]"
    using s by (simp add: performLocalSegmentation_def click_tolerance_def Let_def)
  have "int (card {k. k < 50 * 50 \<and> mask ?s ! k \<noteq> 0}) = 1251"
    using fill_final_count [of ?d 50 50 25 25 ?v 30] c by simp
  then have n: "card {k. k < 50 * 50 \<and> maskData seg ! k \<noteq> 0} = 1251"
    unfolding f(1) by simp
  have b1: "b_x (bounds seg) \<le> 25" "25 < b_x (bounds seg) + b_width (bounds seg)"
    "b_y (bounds seg) \<le> 25" "25 < b_y (bounds seg) + b_height (bounds seg)"
    unfolding f using sb by simp_all
  from c q p s n b1 bx show ?thesis by simp
qed

section \<open>The stride and the loops of the sampling\<close>

lemma floor_sqrt_bounds:
  "floor_sqrt n * floor_sqrt n \<le> n \<and> n < (floor_sqrt n + 1) * (floor_sqrt n + 1)"
proof (induction n rule: floor_sqrt.induct)
  case (1 n)
  show ?case
  proof (cases "n = 0")
    case True
    then show ?thesis by (simp add: floor_sqrt.simps)
  next
    case False
    define m where "m = floor_sqrt (n div 4)"
    from "1.IH" [OF False] have ih: "m * m \<le> n div 4" "n div 4 < (m + 1) * (m + 1)"
      by (simp_all add: m_def)
    have lo: "(2 * m) * (2 * m) \<le> n"
    proof -
      have "4 * (m * m) \<le> 4 * (n div 4)" using ih(1) by simp
      also have "\<dots> \<le> n" by simp
      finally show ?thesis by (simp add: algebra_simps)
    qed
    have hi: "n < (2 * m + 2) * (2 * m + 2)"
    proof -
      have "n div 4 + 1 \<le> (m + 1) * (m + 1)" using ih(2) by simp
      then have "4 * (n div 4 + 1) \<le> 4 * ((m + 1) * (m + 1))" by simp
      moreover have "n < 4 * (n div 4 + 1)" by presburger
      ultimately show ?thesis by (simp add: algebra_simps)
    qed
    have eq: "floor_sqrt n = (if (2 * m + 1) * (2 * m + 1) \<le> n then 2 * m + 1 else 2 * m)"
      using False by (subst floor_sqrt.simps) (simp add: m_def Let_def)
    show ?thesis
    proof (cases "(2 * m + 1) * (2 * m + 1) \<le> n")
      case True
      then show ?thesis using eq hi by (simp add: algebra_simps)
    next
      case False
      then show ?thesis using eq lo by (simp add: algebra_simps)
    qed
  qed
qed

lemma floor_sqrt_quotient:
  assumes c: "0 < c"
  shows "\<lfloor>sqrt (real a / real c)\<rfloor> = int (floor_sqrt (a div c))"
proof (rule floor_unique)
  let ?r = "floor_sqrt (a div c)"
  have b: "?r * ?r \<le> a div c" "a div c < (?r + 1) * (?r + 1)"
    using floor_sqrt_bounds [of "a div c"] by simp_all
  have q1: "real (a div c) \<le> real a / real c"
  proof -
    have "(a div c) * c \<le> a" by simp
    then have "real ((a div c) * c) \<le> real a" by (simp only: of_nat_le_iff)
    then show ?thesis using c by (simp add: le_divide_eq)
  qed
  have q2: "real a / real c < real (a div c) + 1"
  proof -
    have "a < (a div c + 1) * c" using c by (simp add: dividend_less_times_div mult.commute)
    then have "real a < real ((a div c + 1) * c)" by (simp only: of_nat_less_iff)
    then show ?thesis using c by (simp add: divide_less_eq algebra_simps)
  qed
  have "real (?r * ?r) \<le> real (a div c)" using b(1) by (simp only: of_nat_le_iff)
  then have "real (?r * ?r) \<le> real a / real c" using q1 by (rule order_trans)
  then have "(real ?r)\<^sup>2 \<le> real a / real c" by (simp add: power2_eq_square)
  then have "real ?r \<le> sqrt (real a / real c)" by (rule real_le_rsqrt)
  then show "of_int (int ?r) \<le> sqrt (real a / real c)" by simp
  have "a div c + 1 \<le> (?r + 1) * (?r + 1)" using b(2) by simp
  then have "real (a div c + 1) \<le> real ((?r + 1) * (?r + 1))" by (simp only: of_nat_le_iff)
  then have "real (a div c) + 1 \<le> (real ?r + 1) * (real ?r + 1)"
    by (simp only: of_nat_add of_nat_mult of_nat_1)
  then have "real a / real c < (real ?r + 1) * (real ?r + 1)"
    using q2 by (rule less_le_trans [rotated])
  then have "real a / real c < (real ?r + 1)\<^sup>2"
    by (simp only: power2_eq_square)
  then have "sqrt (real a / real c) < real ?r + 1"
    by (intro real_less_lsqrt) simp_all
  then show "sqrt (real a / real c) < of_int (int ?r) + 1" by simp
qed

lemma sample_step_code:
  "0 < count \<Longrightarrow> sample_step w h count = int (floor_sqrt ((w * h) div count))"
  unfolding sample_step_def by (rule floor_sqrt_quotient)

lemma sample_step_pos_iff:
  assumes "0 < count"
  shows "1 \<le> sample_step w h count \<longleftrightarrow> count \<le> w * h"
proof -
  let ?n = "(w * h) div count"
  have b: "floor_sqrt ?n * floor_sqrt ?n \<le> ?n" "?n < (floor_sqrt ?n + 1) * (floor_sqrt ?n + 1)"
    using floor_sqrt_bounds [of ?n] by simp_all
  have "1 \<le> floor_sqrt ?n \<longleftrightarrow> 1 \<le> ?n"
  proof
    assume "1 \<le> floor_sqrt ?n"
    then have "floor_sqrt ?n \<le> floor_sqrt ?n * floor_sqrt ?n"
      by (cases "floor_sqrt ?n") simp_all
    then show "1 \<le> ?n" using b(1) \<open>1 \<le> floor_sqrt ?n\<close> by linarith
  next
    assume "1 \<le> ?n"
    show "1 \<le> floor_sqrt ?n"
    proof (rule ccontr)
      assume "\<not> 1 \<le> floor_sqrt ?n"
      then have "floor_sqrt ?n = 0" by simp
      then show False using b(2) \<open>1 \<le> ?n\<close> by simp
    qed
  qed
  moreover have "1 \<le> ?n \<longleftrightarrow> count \<le> w * h"
    using assms by (simp add: Suc_le_eq div_greater_zero_iff)
  ultimately show ?thesis using assms by (simp add: sample_step_code)
qed

lemma multiple_below_iff:
  fixes a s w :: int
  assumes "0 < s"
  shows "a * s < w \<longleftrightarrow> a \<le> (w - 1) div s"
proof
  assume "a * s < w"
  then have "a * s \<le> w - 1" by simp
  then have "a * s div s \<le> (w - 1) div s" using assms by (intro zdiv_mono1) simp_all
  then show "a \<le> (w - 1) div s" using assms by simp
next
  assume "a \<le> (w - 1) div s"
  then have "a * s \<le> (w - 1) div s * s" using assms by (intro mult_right_mono) simp_all
  also have "\<dots> \<le> w - 1"
    using div_mult_mod_eq [of "w - 1" s] pos_mod_sign [OF assms, of "w - 1"] by linarith
  finally show "a * s < w" by simp
qed

lemma inner_loop_grid:
  assumes "0 < step"
  shows "inner_loop step w py (a * step) points
           = Some (points @ map (\<lambda>i. (i * step, py)) [a..(w - 1) div step])"
proof (induction "nat ((w - 1) div step + 1 - a)" arbitrary: a points)
  case 0
  then have "\<not> a \<le> (w - 1) div step" by simp
  then have "\<not> a * step < w" "[a..(w - 1) div step] = []"
    using multiple_below_iff [OF assms] by simp_all
  then show ?case by (subst inner_loop.simps) simp
next
  case (Suc n)
  then have le: "a \<le> (w - 1) div step" by simp
  then have lt: "a * step < w" using multiple_below_iff [OF assms] by simp
  have n: "n = nat ((w - 1) div step + 1 - (a + 1))" using Suc.hyps(2) by simp
  have "inner_loop step w py (a * step) points
          = inner_loop step w py ((a + 1) * step) (points @ [(a * step, py)])"
    using lt by (subst inner_loop.simps) (simp add: algebra_simps)
  also have "\<dots> = Some ((points @ [(a * step, py)])
                         @ map (\<lambda>i. (i * step, py)) [a + 1..(w - 1) div step])"
    by (rule Suc.hyps(1) [OF n])
  also have "\<dots> = Some (points @ map (\<lambda>i. (i * step, py)) [a..(w - 1) div step])"
    using le by (simp add: upto_rec1 [of a])
  finally show ?case .
qed

lemma inner_loop_row:
  assumes "0 < step"
  shows "inner_loop step w py step points = Some (points @ grid_row step w py)"
  using inner_loop_grid [OF assms, of w py 1 points] by (simp add: grid_row_def)

lemma outer_loop_grid:
  assumes "0 < step"
  shows "outer_loop step w h (b * step) points
           = Some (points @ concat (map (\<lambda>j. grid_row step w (j * step)) [b..(h - 1) div step]))"
proof (induction "nat ((h - 1) div step + 1 - b)" arbitrary: b points)
  case 0
  then have "\<not> b \<le> (h - 1) div step" by simp
  then have "\<not> b * step < h" "[b..(h - 1) div step] = []"
    using multiple_below_iff [OF assms] by simp_all
  then show ?case by (subst outer_loop.simps) simp
next
  case (Suc n)
  then have le: "b \<le> (h - 1) div step" by simp
  then have lt: "b * step < h" using multiple_below_iff [OF assms] by simp
  have n: "n = nat ((h - 1) div step + 1 - (b + 1))" using Suc.hyps(2) by simp
  have "outer_loop step w h (b * step) points
          = outer_loop step w h ((b + 1) * step) (points @ grid_row step w (b * step))"
    using lt inner_loop_row [OF assms]
    by (subst outer_loop.simps) (simp add: algebra_simps)
  also have "\<dots> = Some ((points @ grid_row step w (b * step))
               @ concat (map (\<lambda>j. grid_row step w (j * step)) [b + 1..(h - 1) div step]))"
    by (rule Suc.hyps(1) [OF n])
  also have "\<dots> = Some (points
               @ concat (map (\<lambda>j. grid_row step w (j * step)) [b..(h - 1) div step]))"
    using le by (simp add: upto_rec1 [of b])
  finally show ?case .
qed

lemma outer_loop_stuck:
  assumes "outer_loop 0 w h py points = Some res"
  shows "\<not> py < h"
proof -
  have "(0::int) = 0 \<longrightarrow> \<not> py < h"
  proof (rule outer_loop.raw_induct
      [where P = "\<lambda>step w h py points res. step = 0 \<longrightarrow> \<not> py < h", OF _ assms])
    fix f :: "int \<Rightarrow> int \<Rightarrow> int \<Rightarrow> int \<Rightarrow> point list \<Rightarrow> point list option"
      and step w h py :: int and points res :: "point list"
    assume ih: "\<And>s' w' h' py' points' res'.
                  f s' w' h' py' points' = Some res' \<Longrightarrow> s' = 0 \<longrightarrow> \<not> py' < h'"
      and body: "(if py < h
                  then inner_loop step w py step points \<bind> f step w h (py + step)
                  else Some points) = Some res"
    show "step = 0 \<longrightarrow> \<not> py < h"
    proof (intro impI notI)
      assume z: "step = 0" and lt: "py < h"
      from body lt obtain ps where "f step w h (py + step) ps = Some res"
        by (auto simp: bind_eq_Some_conv)
      from ih [OF this] z lt show False by simp
    qed
  qed
  then show ?thesis by simp
qed

lemma sample_step_zero:
  assumes "0 < count" "w * h < count"
  shows "sample_step w h count = 0"
proof -
  have "(w * h) div count = 0" using assms by simp
  then show ?thesis using assms by (simp add: sample_step_code floor_sqrt.simps)
qed

lemma getSamplePoints_eq:
  "getSamplePoints w h count =
     (if count = 0 \<or> h = 0 then Some []
      else if w * h < count then None
      else Some (grid (sample_step w h count) (int w) (int h)))"
proof -
  consider "count = 0" | "0 < count" "h = 0" | "0 < count" "0 < h" "w * h < count"
    | "0 < count" "0 < h" "count \<le> w * h" by linarith
  then show ?thesis
  proof cases
    case 1
    then show ?thesis by (simp add: getSamplePoints_def)
  next
    case 2
    then have "sample_step w h count = 0" using sample_step_zero [of count w h] by simp
    moreover have "outer_loop 0 (int w) 0 0 [] = Some []"
      by (subst outer_loop.simps) simp
    ultimately show ?thesis using 2 by (simp add: getSamplePoints_def)
  next
    case 3
    then have z: "sample_step w h count = 0" by (simp add: sample_step_zero)
    have "outer_loop 0 (int w) (int h) 0 [] = None"
    proof (cases "outer_loop 0 (int w) (int h) 0 []")
      case None
      then show ?thesis .
    next
      case (Some res)
      from outer_loop_stuck [OF this] 3 show ?thesis by simp
    qed
    then show ?thesis using 3 z by (simp add: getSamplePoints_def)
  next
    case 4
    then have pos: "0 < sample_step w h count"
      using sample_step_pos_iff [of count w h] by simp
    from outer_loop_grid [OF pos, of "int w" "int h" 1 "[]"]
    have "outer_loop (sample_step w h count) (int w) (int h) (sample_step w h count) []
            = Some (grid (sample_step w h count) (int w) (int h))"
      by (simp add: grid_def)
    then show ?thesis using 4 by (simp add: getSamplePoints_def Let_def)
  qed
qed

lemma sorted_grid_row:
  assumes "0 < step"
  shows "sorted_wrt row_major_less (grid_row step w py)"
proof -
  have "sorted_wrt (\<lambda>i j. row_major_less (i * step, py) (j * step, py)) [1..(w - 1) div step]"
    using sorted_wrt_upto [of 1 "(w - 1) div step"]
    by (rule sorted_wrt_mono_rel [rotated]) (simp add: row_major_less_def assms)
  then show ?thesis by (simp add: grid_row_def sorted_wrt_map)
qed

lemma sorted_grid_rows:
  assumes "0 < step"
  shows "sorted_wrt row_major_less (concat (map (\<lambda>j. grid_row step w (j * step)) [b..n]))"
proof (induction "nat (n + 1 - b)" arbitrary: b)
  case 0
  then have "[b..n] = []" by simp
  then show ?case by simp
next
  case (Suc m)
  then have le: "b \<le> n" by simp
  have m: "m = nat (n + 1 - (b + 1))" using Suc.hyps(2) by simp
  have cross: "row_major_less p q"
    if "p \<in> set (grid_row step w (b * step))"
      and "q \<in> set (concat (map (\<lambda>j. grid_row step w (j * step)) [b + 1..n]))" for p q
  proof -
    from that(1) have "snd p = b * step" by (auto simp: grid_row_def)
    moreover from that(2) obtain j where "b + 1 \<le> j" "snd q = j * step"
      by (auto simp: grid_row_def)
    moreover have "b * step < j * step" using \<open>b + 1 \<le> j\<close> assms by simp
    ultimately show ?thesis by (simp add: row_major_less_def)
  qed
  show ?case
    using le sorted_grid_row [OF assms, of w "b * step"] Suc.hyps(1) [OF m] cross
    by (simp add: upto_rec1 [of b] sorted_wrt_append)
qed

lemma sorted_grid:
  "0 < step \<Longrightarrow> sorted_wrt row_major_less (grid step w h)"
  unfolding grid_def by (rule sorted_grid_rows)

lemma sorted_wrt_irrefl_distinct:
  assumes "sorted_wrt R xs" and "\<And>x. \<not> R x x"
  shows "distinct xs"
  using assms by (induction xs) auto

lemma distinct_grid: "0 < step \<Longrightarrow> distinct (grid step w h)"
  by (rule sorted_wrt_irrefl_distinct [OF sorted_grid]) (simp_all add: row_major_less_def)

section \<open>The sample grid\<close>

text \<open>
  Claim C5. \<open>getSamplePoints\<close> takes the stride floor(sqrt((width * height) / count))
  and, when it returns, returns the points (i * stride, j * stride) for i = 1, 2, ...
  while i * stride is below the width and j = 1, 2, ... while j * stride is below the
  height, from (stride, stride) on, row by row from the top and from left to right in
  each row. (It returns nothing when the stride is 0 and the height is not: see C10.)
  The sequence is strictly increasing in the row-major order and repeats no point.
\<close>

theorem getSamplePoints_grid:
  "let step = \<lfloor>sqrt (real (w * h) / real count)\<rfloor>;
       seeds = concat (map (\<lambda>j. map (\<lambda>i. (i * step, j * step)) [1..(int w - 1) div step])
                           [1..(int h - 1) div step])
   in getSamplePoints w h count =
        (if count = 0 \<or> h = 0 then Some []
         else if w * h < count then None
         else Some seeds)
      \<and> sorted_wrt row_major_less seeds \<and> distinct seeds"
proof -
  define step where "step = \<lfloor>sqrt (real (w * h) / real count)\<rfloor>"
  have st: "sample_step w h count = step" by (simp add: step_def sample_step_def)
  have g: "concat (map (\<lambda>j. map (\<lambda>i. (i * step, j * step)) [1..(int w - 1) div step])
                       [1..(int h - 1) div step]) = grid step (int w) (int h)"
    by (simp add: grid_def grid_row_def)
  have "0 \<le> step" by (simp add: step_def)
  then consider "step = 0" | "0 < step" by linarith
  then have o: "sorted_wrt row_major_less (grid step (int w) (int h))
                \<and> distinct (grid step (int w) (int h))"
  proof cases
    case 1
    then show ?thesis by (simp add: grid_def)
  next
    case 2
    then show ?thesis by (simp add: sorted_grid distinct_grid)
  qed
  show ?thesis
    unfolding Let_def step_def [symmetric] g
    using getSamplePoints_eq [of w h count] o by (simp add: st)
qed

text \<open>\<^verbatim>\<open>getSamplePoints(100, 100, 25)\<close>: stride 20, sixteen points.\<close>

theorem getSamplePoints_grid_witness:
  "getSamplePoints 100 100 25 =
     Some [(20, 20), (40, 20), (60, 20), (80, 20), (20, 40), (40, 40), (60, 40), (80, 40),
           (20, 60), (40, 60), (60, 60), (80, 60), (20, 80), (40, 80), (60, 80), (80, 80)]
   \<and> sorted_wrt row_major_less
       [(20, 20), (40, 20), (60, 20), (80, 20), (20, 40), (40, 40), (60, 40), (80, 40),
        (20, 60), (40, 60), (60, 60), (80, 60), (20, 80), (40, 80), (60, 80), (80, 80)]
   \<and> distinct
       [(20, 20) :: point, (40, 20), (60, 20), (80, 20), (20, 40), (40, 40), (60, 40), (80, 40),
        (20, 60), (40, 60), (60, 60), (80, 60), (20, 80), (40, 80), (60, 80), (80, 80)]"
proof -
  have "floor_sqrt 400 = 20" by (simp add: floor_sqrt.simps)
  then have st: "\<lfloor>sqrt (real (100 * 100) / real 25)\<rfloor> = 20"
    using floor_sqrt_quotient [of 25 "100 * 100"] by simp
  show ?thesis
    using getSamplePoints_grid [of 100 100 25] unfolding Let_def st
    by (simp add: upto_rec1)
qed

section \<open>Termination of the sampling\<close>

text \<open>
  Claim C10. For a count of at least 1 and the dimensions of an image (the height of an
  \<^verbatim>\<open>ImageData\<close> is at least 1), the stride floor(sqrt((width * height) / count)) is at
  least 1 exactly when width * height is at least the count, and \<open>getSamplePoints\<close>
  ends and returns a (finite) sequence of seeds exactly when the stride is at least 1.
  The stride is never negative, and with a stride of 0 the loops advance by 0 and never
  end: the condition on the stride is necessary.
\<close>

theorem getSamplePoints_terminates_iff:
  assumes "1 \<le> count" and "1 \<le> h"
  shows "(1 \<le> sample_step w h count \<longleftrightarrow> count \<le> w * h)
         \<and> ((\<exists>points. getSamplePoints w h count = Some points)
              \<longleftrightarrow> 1 \<le> sample_step w h count)
         \<and> 0 \<le> sample_step w h count
         \<and> (sample_step w h count = 0 \<longrightarrow> getSamplePoints w h count = None)"
proof -
  have c: "0 < count" and h: "h \<noteq> 0" using assms by simp_all
  have 1: "1 \<le> sample_step w h count \<longleftrightarrow> count \<le> w * h"
    by (rule sample_step_pos_iff [OF c])
  have 2: "(\<exists>points. getSamplePoints w h count = Some points) \<longleftrightarrow> count \<le> w * h"
    using c h by (auto simp: getSamplePoints_eq)
  have 3: "0 \<le> sample_step w h count" using c by (simp add: sample_step_code)
  have 4: "sample_step w h count = 0 \<longrightarrow> getSamplePoints w h count = None"
    using c h 1 by (auto simp: getSamplePoints_eq)
  from 1 2 3 4 show ?thesis by blast
qed

text \<open>
  \<^verbatim>\<open>getSamplePoints(100, 100, 25)\<close> returns; on a 3 by 3 image with count 20 the stride
  is 0 and the loops never end.
\<close>

theorem getSamplePoints_terminates_iff_witness:
  "(\<exists>points. getSamplePoints 100 100 25 = Some points)
   \<and> 1 \<le> sample_step 100 100 25
   \<and> sample_step 3 3 20 = 0 \<and> getSamplePoints 3 3 20 = None"
proof -
  have a: "(\<exists>points. getSamplePoints 100 100 25 = Some points) \<and> 1 \<le> sample_step 100 100 25"
    using getSamplePoints_terminates_iff [of 25 100 100] by simp
  have z: "sample_step 3 3 20 = 0" using sample_step_zero [of 20 3 3] by simp
  then have "getSamplePoints 3 3 20 = None"
    using getSamplePoints_terminates_iff [of 20 3 3] by simp
  with a z show ?thesis by simp
qed

section \<open>Determinism of the flood fill\<close>

text \<open>
  Claim C7. Two runs of \<open>floodFill\<close> on the same image, from the same seed, with the
  same tolerance and each with a fresh visited array give the same answer apart from
  the generated identifier: both answer none, or both answer a region, with the same
  mask and the same bounding box; they also leave the same visited array.
\<close>

theorem floodFill_deterministic:
  "map_option (\<lambda>seg. (maskData seg, bounds seg))
     (fst (floodFill ident1 data w h startX startY (replicate (w * h) 0) tolerance))
   = map_option (\<lambda>seg. (maskData seg, bounds seg))
     (fst (floodFill ident2 data w h startX startY (replicate (w * h) 0) tolerance))
   \<and> snd (floodFill ident1 data w h startX startY (replicate (w * h) 0) tolerance)
     = snd (floodFill ident2 data w h startX startY (replicate (w * h) 0) tolerance)"
  by (simp add: floodFill_def Let_def)

section \<open>The two tolerances\<close>

text \<open>
  Claim C4, as stated: the tolerance of the automatic mode is larger than that of the
  click mode. It is 25 against 30.
\<close>

theorem auto_tolerance_looser_counterexample:
  "\<not> (auto_tolerance \<noteq> click_tolerance \<and> click_tolerance < auto_tolerance)"
  by (simp add: auto_tolerance_def click_tolerance_def)

text \<open>
  Claim C4, amended. The automatic mode runs every \<open>floodFill\<close> with the one tolerance
  25, the click mode runs its single \<open>floodFill\<close> with 30: the tolerance of the
  automatic mode is distinct from and tighter (smaller) than that of the click mode.
  A colour distance of 27 is accepted by the click mode and rejected by the automatic
  mode.
\<close>

theorem auto_tolerance_tighter:
  "performLocalSegmentation ids imgData (Some cp) =
     (case fst (floodFill (ids 0) (img_data imgData) (img_width imgData) (img_height imgData)
                  (fst cp) (snd cp)
                  (replicate (img_width imgData * img_height imgData) 0) 30) of
        None \<Rightarrow> Some []
      | Some segment \<Rightarrow> Some [segment])
   \<and> auto_loop ids data w h (point # points) n vis segments =
       (if truthy (js_get vis (snd point * int w + fst point))
        then auto_loop ids data w h points n vis segments
        else let r = floodFill (ids n) data w h (fst point) (snd point) vis 25;
                 segments' = (case fst r of
                                None \<Rightarrow> segments
                              | Some seg \<Rightarrow>
                                  if b_width (bounds seg) > 20 \<and> b_height (bounds seg) > 20
                                  then segments @ [seg] else segments)
             in if length segments' \<ge> 15 then segments'
                else auto_loop ids data w h points (n + 1) (snd r) segments')
   \<and> auto_tolerance = 25 \<and> click_tolerance = 30
   \<and> auto_tolerance \<noteq> click_tolerance \<and> auto_tolerance < click_tolerance
   \<and> num_gt (Some 27) auto_tolerance \<and> \<not> num_gt (Some 27) click_tolerance"
  by (simp add: performLocalSegmentation_def auto_tolerance_def click_tolerance_def Let_def
      case_prod_unfold)

section \<open>Regions of the service whose shape is not that of the image\<close>

lemma b64_value_slash: "b64_value CHR ''/'' = Some 63"
  by (simp add: b64_value_def Let_def)
lemma b64_values_demo: "b64_values ''////'' = Some [63,63,63,63]"
  by (simp add: b64_value_slash)
lemma b64_bytes_demo: "b64_bytes [63,63,63,63] = [255,255,255]"
  by (simp add: Let_def)
lemma strip_padding_demo: "strip_padding ''////'' = ''////''"
  by (simp add: strip_padding_def)
lemma atob_demo: "atob ''////'' = Some [255, 255, 255]"
proof -
  have f: "filter (\<lambda>c. (of_char c :: nat) \<notin> {9, 10, 12, 13, 32}) ''////'' = ''////''"
    by simp
  show ?thesis unfolding atob_def Let_def f strip_padding_demo b64_values_demo by (simp add: b64_bytes_demo)
qed

text \<open>
  Claim C8. A region whose mask has as many bytes as its declared shape says, but whose
  declared shape (1 by 3) is not that of the image (3 by 1), is not dropped: the worker
  writes the warning and returns the region with a mask of zeros in place of the three
  bytes 255 of the service, and so does the message handler.
\<close>

theorem convertAPISegment_reshaped:
  "convertAPISegment reshaped_segment 3 1
     = (Some \<lparr>seg_id = ''r1'', maskData = [0, 0, 0], bounds = demo_bounds\<rparr>,
        [console_warn ''Mask dimensions do not match image dimensions''])
   \<and> onmessage demo_ids (Api_segments [reshaped_segment])
         \<lparr>img_width = 3, img_height = 1, img_data = replicate 12 0\<rparr> None
     = (Some [\<lparr>seg_id = ''r1'', maskData = [0, 0, 0], bounds = demo_bounds\<rparr>],
        [console_warn ''Mask dimensions do not match image dimensions''])"
  by (simp add: onmessage_def convertAPISegment_def reshaped_segment_def atob_demo Let_def
      numeral_3_eq_3)

section \<open>A single region with a mask of the wrong length\<close>

text \<open>
  Claim C9, as stated: when the only region of the answer has a mask whose length is
  not its declared width * height, the call falls back to the local algorithm. On the
  solid 50 by 50 image with a click at (25, 25) the handler posts no region and writes
  no line about a fallback, while the local algorithm, run on a failure of the service,
  finds a region.
\<close>

theorem onmessage_single_mismatch_counterexample:
  "onmessage demo_ids (Api_segments [short_segment]) solid_image (Some (25, 25))
     = (Some [], [console_error ''Mask size mismatch''])
   \<and> fst (onmessage demo_ids Api_failure solid_image (Some (25, 25))) \<noteq> Some []"
proof -
  have 1: "onmessage demo_ids (Api_segments [short_segment]) solid_image (Some (25, 25))
     = (Some [], [console_error ''Mask size mismatch''])"
    by (simp add: onmessage_def convertAPISegment_def short_segment_def atob_demo Let_def)
  obtain seg where "fst (floodFill (demo_ids 0) (concat (replicate (50 * 50) [200, 100, 50, 255]))
                      50 50 25 25 (replicate (50 * 50) 0) 30) = Some seg"
    using floodFill_solid_Some [of 25 50 25 50 30 "demo_ids 0" 200 100 50 255] by auto
  then have 2: "fst (onmessage demo_ids Api_failure solid_image (Some (25, 25))) \<noteq> Some []"
    by (simp add: onmessage_def performLocalSegmentation_def solid_image_def
        click_tolerance_def Let_def)
  from 1 2 show ?thesis by simp
qed

text \<open>
  Claim C9, amended. When the service answers exactly one region and the length of its
  decoded mask is not its declared width * height, the handler drops the region and
  posts the empty sequence, with the line about the mismatch on the console; it does
  not run the local algorithm. The local algorithm runs only when the request itself
  fails.
\<close>

theorem onmessage_single_mismatch:
  assumes "atob (api_maskData seg) = Some decoded"
    and "int (length decoded) \<noteq> shape_width (api_maskShape seg) * shape_height (api_maskShape seg)"
  shows "onmessage ids (Api_segments [seg]) imgData clickPoint
           = (Some [], [console_error ''Mask size mismatch''])
         \<and> onmessage ids Api_failure imgData clickPoint
           = (performLocalSegmentation ids imgData clickPoint,
              [console_error ''Segmentation error:'',
               console_log ''Falling back to local segmentation...''])"
  using assms by (simp add: onmessage_def convertAPISegment_def Let_def)

theorem onmessage_single_mismatch_witness:
  "atob (api_maskData short_segment) = Some [255, 255, 255]
   \<and> onmessage demo_ids (Api_segments [short_segment]) solid_image None
     = (Some [], [console_error ''Mask size mismatch''])"
proof -
  have a: "atob (api_maskData short_segment) = Some [255, 255, 255]"
    by (simp add: short_segment_def atob_demo)
  have b: "int (length [255 :: nat, 255, 255])
             \<noteq> shape_width (api_maskShape short_segment) * shape_height (api_maskShape short_segment)"
    by (simp add: short_segment_def)
  from onmessage_single_mismatch [OF a b, of demo_ids solid_image None] a
  show ?thesis by simp
qed

section \<open>Disjoint regions of the automatic mode\<close>

lemma floodFill_length_visited:
  "length (snd (floodFill ident data w h sx sy vis tol)) = length vis"
  using fill_final_inv [of data w h sx sy tol vis]
  by (simp add: floodFill_visited mask_inv_def)

lemma floodFill_visited_mono:
  assumes "nonzero_at vis k"
  shows "nonzero_at (snd (floodFill ident data w h sx sy vis tol)) k"
proof -
  let ?s = "fill_final data w h sx sy vis tol"
  from fill_final_inv [of data w h sx sy tol vis]
  have mi: "mask_inv data w h (targetColor_of data w sx sy) tol vis ?s" by simp
  from assms have k: "k < length vis" "vis ! k \<noteq> 0" by (simp_all add: nonzero_at_def)
  from mi k have "visited ?s ! k = (if nonzero_at (mask ?s) k then 1 else vis ! k)"
    by (simp add: mask_inv_def)
  then have "visited ?s ! k \<noteq> 0" using k by (simp split: if_splits)
  moreover have "length (visited ?s) = length vis" using mi by (simp add: mask_inv_def)
  ultimately show ?thesis using k by (simp add: floodFill_visited nonzero_at_def)
qed

lemma floodFill_mask_fresh:
  assumes s: "fst (floodFill ident data w h sx sy vis tol) = Some seg"
    and nz: "nonzero_at (maskData seg) k"
  shows "\<not> nonzero_at vis k" and "k < w * h"
    and "k < length vis \<Longrightarrow> nonzero_at (snd (floodFill ident data w h sx sy vis tol)) k"
proof -
  let ?s = "fill_final data w h sx sy vis tol"
  from fill_final_inv [of data w h sx sy tol vis]
  have mi: "mask_inv data w h (targetColor_of data w sx sy) tol vis ?s" by simp
  have m: "maskData seg = mask ?s" by (rule floodFill_Some(1) [OF s])
  from nz have nz': "nonzero_at (mask ?s) k" by (simp add: m)
  with mi show "\<not> nonzero_at vis k" by (simp add: mask_inv_def)
  from nz' mi show "k < w * h" by (simp add: mask_inv_def nonzero_at_def)
  assume k: "k < length vis"
  with mi nz' have "visited ?s ! k = 1" by (simp add: mask_inv_def)
  moreover have "length (visited ?s) = length vis" using mi by (simp add: mask_inv_def)
  ultimately show "nonzero_at (snd (floodFill ident data w h sx sy vis tol)) k"
    using k by (simp add: floodFill_visited nonzero_at_def)
qed

lemma covered_by_floodFill:
  assumes "covered_by vis segs"
  shows "covered_by (snd (floodFill ident data w h sx sy vis tol)) segs"
  using assms floodFill_visited_mono unfolding covered_by_def by blast

lemma auto_loop_disjoint:
  assumes "length vis = w * h" "covered_by vis segs" "sorted_wrt masks_disjoint segs"
  shows "sorted_wrt masks_disjoint (auto_loop ids data w h points n vis segs)"
  using assms
proof (induction points arbitrary: n vis segs)
  case Nil
  then show ?case by simp
next
  case (Cons point points)
  show ?case
  proof (cases "truthy (js_get vis (snd point * int w + fst point))")
    case True
    then show ?thesis using Cons by simp
  next
    case False
    let ?r = "floodFill (ids n) data w h (fst point) (snd point) vis auto_tolerance"
    let ?segs' = "case fst ?r of None \<Rightarrow> segs
                  | Some seg \<Rightarrow> if b_width (bounds seg) > 20 \<and> b_height (bounds seg) > 20
                                then segs @ [seg] else segs"
    have len: "length (snd ?r) = w * h"
      using Cons.prems(1) by (simp add: floodFill_length_visited)
    have cov_old: "covered_by (snd ?r) segs"
      by (rule covered_by_floodFill [OF Cons.prems(2)])
    have new: "covered_by (snd ?r) (segs @ [seg]) \<and> sorted_wrt masks_disjoint (segs @ [seg])"
      if s: "fst ?r = Some seg" for seg
    proof
      have "nonzero_at (snd ?r) k" if "nonzero_at (maskData seg) k" for k
        using floodFill_mask_fresh(2,3) [OF s that] Cons.prems(1) by simp
      then show "covered_by (snd ?r) (segs @ [seg])"
        using cov_old by (auto simp: covered_by_def)
      have "masks_disjoint a seg" if "a \<in> set segs" for a
        using floodFill_mask_fresh(1) [OF s] Cons.prems(2) that
        unfolding masks_disjoint_def covered_by_def by blast
      then show "sorted_wrt masks_disjoint (segs @ [seg])"
        using Cons.prems(3) by (simp add: sorted_wrt_append)
    qed
    have inv': "covered_by (snd ?r) ?segs' \<and> sorted_wrt masks_disjoint ?segs'"
      using cov_old Cons.prems(3) new by (cases "fst ?r") auto
    have eq: "auto_loop ids data w h (point # points) n vis segs =
                (if length ?segs' \<ge> 15 then ?segs'
                 else auto_loop ids data w h points (n + 1) (snd ?r) ?segs')"
      using False by (simp add: Let_def case_prod_unfold)
    show ?thesis
      unfolding eq using inv' Cons.IH [OF len] by simp
  qed
qed

text \<open>
  Claim C6. When the automatic mode returns, no pixel index is nonzero in the masks of
  two different returned regions. (Every pixel a flood fill accepts was not visited
  before that fill and is visited after it, and a visited pixel stays visited.)
\<close>

theorem autoSegment_disjoint:
  assumes "performLocalSegmentation ids imgData None = Some segments"
  shows "\<forall>i j k. i < length segments \<and> j < length segments \<and> i \<noteq> j \<longrightarrow>
           \<not> (k < length (maskData (segments ! i)) \<and> maskData (segments ! i) ! k \<noteq> 0
              \<and> k < length (maskData (segments ! j)) \<and> maskData (segments ! j) ! k \<noteq> 0)"
proof -
  from assms obtain points where
    seg: "segments = auto_loop ids (img_data imgData) (img_width imgData) (img_height imgData)
            points 0 (replicate (img_width imgData * img_height imgData) 0) []"
    by (auto simp: performLocalSegmentation_def Let_def bind_eq_Some_conv)
  have "sorted_wrt masks_disjoint segments"
    unfolding seg by (rule auto_loop_disjoint) (simp_all add: covered_by_def)
  then have d: "masks_disjoint (segments ! i) (segments ! j)"
    if "i < j" "j < length segments" for i j
    using that by (simp add: sorted_wrt_iff_nth_less)
  show ?thesis
  proof (intro allI impI)
    fix i j k
    assume a: "i < length segments \<and> j < length segments \<and> i \<noteq> j"
    then consider "i < j" | "j < i" by linarith
    then show "\<not> (k < length (maskData (segments ! i)) \<and> maskData (segments ! i) ! k \<noteq> 0
              \<and> k < length (maskData (segments ! j)) \<and> maskData (segments ! j) ! k \<noteq> 0)"
    proof cases
      case 1
      then show ?thesis using d [of i j] a by (auto simp: masks_disjoint_def nonzero_at_def)
    next
      case 2
      then show ?thesis using d [of j i] a by (auto simp: masks_disjoint_def nonzero_at_def)
    qed
  qed
qed

section \<open>The flood fill of a rectangle of acceptable pixels\<close>

lemma marked_acceptable:
  assumes mi: "mask_inv data w h tc tol vis s" and m: "marked w h (mask s) px py"
  shows "acceptable data w h tc tol vis px py"
proof -
  from m have inb: "0 \<le> px" "px < int w" "0 \<le> py" "py < int h"
    and t: "truthy (js_get (mask s) (py * int w + px))" by (simp_all add: marked_def)
  define k where "k = nat (py * int w + px)"
  have idx: "py * int w + px = int k" using pixel_index_nat(1) [OF inb] by (simp add: k_def)
  from t have "nonzero_at (mask s) k" by (simp add: idx truthy_js_get_int)
  with mi have "\<not> nonzero_at vis k" "\<not> num_gt (colorDiff data (int k * 4) tc) tol"
    by (simp_all add: mask_inv_def)
  then show ?thesis using inb by (simp add: acceptable_def idx truthy_js_get_int)
qed

lemma rejected_acceptable_marked:
  assumes mi: "mask_inv data w h tc tol vis s"
    and a: "acceptable data w h tc tol vis (fst p) (snd p)"
    and rej: "\<not> accepts data w h tc tol p s"
  shows "marked w h (mask s) (fst p) (snd p)"
proof -
  from a have inb: "0 \<le> fst p" "fst p < int w" "0 \<le> snd p" "snd p < int h"
    by (simp_all add: acceptable_def)
  define k where "k = nat (snd p * int w + fst p)"
  have idx: "snd p * int w + fst p = int k"
    using pixel_index_nat(1) [OF inb] by (simp add: k_def)
  from a have nv: "\<not> nonzero_at vis k"
    and col: "\<not> num_gt (colorDiff data (int k * 4) tc) tol"
    by (simp_all add: acceptable_def idx truthy_js_get_int)
  from rej inb col
  have "truthy (js_get (visited s) (int k)) \<or> truthy (js_get (mask s) (int k))"
    by (simp add: accepts_def idx)
  then have "nonzero_at (mask s) k"
  proof
    assume "truthy (js_get (visited s) (int k))"
    then have v: "nonzero_at (visited s) k" by (simp add: truthy_js_get_int)
    then have kl: "k < length vis" using mi by (simp add: nonzero_at_def mask_inv_def)
    then have "visited s ! k = (if nonzero_at (mask s) k then 1 else vis ! k)"
      using mi by (simp add: mask_inv_def)
    moreover have "vis ! k = 0" using nv kl by (simp add: nonzero_at_def)
    ultimately show ?thesis using v by (auto simp: nonzero_at_def split: if_splits)
  next
    assume "truthy (js_get (mask s) (int k))"
    then show ?thesis by (simp add: truthy_js_get_int)
  qed
  then show ?thesis using inb by (simp add: marked_def idx truthy_js_get_int)
qed

lemma region_inv_init:
  "region_inv data w h tc tol vis sx sy (fill_init sx sy w h vis)"
  by (simp add: region_inv_def fill_init_def marked_def not_truthy_replicate_zero)

lemma region_inv_reject:
  assumes inv: "region_inv data w h tc tol vis sx sy s" and q: "queue s = p # rest"
    and pm: "acceptable data w h tc tol vis (fst p) (snd p)
               \<Longrightarrow> marked w h (mask s) (fst p) (snd p)"
  shows "region_inv data w h tc tol vis sx sy (s\<lparr>queue := rest\<rparr>)"
proof -
  have step: "marked w h (mask s) qx qy \<or> (qx, qy) \<in> set rest"
    if "marked w h (mask s) qx qy \<or> (qx, qy) \<in> set (queue s)"
      and "acceptable data w h tc tol vis qx qy" for qx qy
  proof (cases "(qx, qy) = p")
    case True
    then show ?thesis using pm that by auto
  next
    case False
    then show ?thesis using that q by auto
  qed
  have nb: "\<forall>px py qx qy.
        marked w h (mask s) px py \<and> (qx, qy) \<in> set (neighbours px py)
        \<and> acceptable data w h tc tol vis qx qy
        \<longrightarrow> marked w h (mask s) qx qy \<or> (qx, qy) \<in> set rest"
  proof (intro allI impI)
    fix px py qx qy
    assume a: "marked w h (mask s) px py \<and> (qx, qy) \<in> set (neighbours px py)
        \<and> acceptable data w h tc tol vis qx qy"
    with inv have "marked w h (mask s) qx qy \<or> (qx, qy) \<in> set (queue s)"
      unfolding region_inv_def by blast
    then show "marked w h (mask s) qx qy \<or> (qx, qy) \<in> set rest"
      using step a by blast
  qed
  have st: "acceptable data w h tc tol vis sx sy
              \<longrightarrow> marked w h (mask s) sx sy \<or> (sx, sy) \<in> set rest"
    using inv step [of sx sy] by (simp add: region_inv_def)
  show ?thesis using nb st by (simp add: region_inv_def)
qed

lemma region_inv_accept:
  assumes inv: "region_inv data w h tc tol vis sx sy s" and q: "queue s = p # rest"
    and acc: "accepts data w h tc tol p (s\<lparr>queue := rest\<rparr>)"
    and len: "length (mask s) = w * h"
  shows "region_inv data w h tc tol vis sx sy (mark w p (s\<lparr>queue := rest\<rparr>))"
proof -
  let ?s' = "mark w p (s\<lparr>queue := rest\<rparr>)"
  have mm: "\<And>qx qy. marked w h (mask ?s') qx qy
              \<longleftrightarrow> (qx = fst p \<and> qy = snd p) \<or> marked w h (mask s) qx qy"
    using marked_mark [OF acc] len by simp
  have qq: "set (queue ?s') = set rest \<union> set (neighbours (fst p) (snd p))"
    by (simp add: mark_def neighbours_def)
  have old: "marked w h (mask ?s') qx qy \<or> (qx, qy) \<in> set (queue ?s')"
    if "marked w h (mask s) qx qy \<or> (qx, qy) \<in> set (queue s)" for qx qy
    using that q unfolding mm qq by (cases "(qx, qy) = p") auto
  have nb: "\<forall>px py qx qy.
        marked w h (mask ?s') px py \<and> (qx, qy) \<in> set (neighbours px py)
        \<and> acceptable data w h tc tol vis qx qy
        \<longrightarrow> marked w h (mask ?s') qx qy \<or> (qx, qy) \<in> set (queue ?s')"
  proof (intro allI impI)
    fix px py qx qy
    assume a: "marked w h (mask ?s') px py \<and> (qx, qy) \<in> set (neighbours px py)
        \<and> acceptable data w h tc tol vis qx qy"
    then consider "px = fst p" "py = snd p" | "marked w h (mask s) px py"
      using mm by blast
    then show "marked w h (mask ?s') qx qy \<or> (qx, qy) \<in> set (queue ?s')"
    proof cases
      case 1
      then show ?thesis using a unfolding qq by simp
    next
      case 2
      with inv a have "marked w h (mask s) qx qy \<or> (qx, qy) \<in> set (queue s)"
        unfolding region_inv_def by blast
      then show ?thesis by (rule old)
    qed
  qed
  have st: "acceptable data w h tc tol vis sx sy
              \<longrightarrow> marked w h (mask ?s') sx sy \<or> (sx, sy) \<in> set (queue ?s')"
    using inv old [of sx sy] by (simp add: region_inv_def)
  show ?thesis unfolding region_inv_def using nb st by simp
qed

lemma rect_closed:
  assumes start: "in_rect xl xr yt yb sx sy" "P sx sy"
    and closed: "\<And>px py qx qy. P px py \<Longrightarrow> (qx, qy) \<in> set (neighbours px py)
                  \<Longrightarrow> in_rect xl xr yt yb qx qy \<Longrightarrow> P qx qy"
    and p: "in_rect xl xr yt yb px py"
  shows "P px py"
proof -
  from start have s: "int xl \<le> sx" "sx < int xr" "int yt \<le> sy" "sy < int yb"
    by (simp_all add: in_rect_def)
  from p have q: "int xl \<le> px" "px < int xr" "int yt \<le> py" "py < int yb"
    by (simp_all add: in_rect_def)
  have row: "P px sy"
  proof (rule interval_closed [where P = "\<lambda>i. P i sy" and a = sx and lo = "int xl"
        and hi = "int xr"])
    show "int xl \<le> sx" "sx < int xr" "P sx sy" "int xl \<le> px" "px < int xr"
      using s start q by simp_all
  next
    fix j assume "int xl \<le> j" "j + 1 < int xr" "P j sy"
    then show "P (j + 1) sy"
      using closed [of j sy "j + 1" sy] s by (simp add: neighbours_def in_rect_def)
  next
    fix j assume "int xl \<le> j - 1" "j < int xr" "P j sy"
    then show "P (j - 1) sy"
      using closed [of j sy "j - 1" sy] s by (simp add: neighbours_def in_rect_def)
  qed
  show ?thesis
  proof (rule interval_closed [where P = "\<lambda>i. P px i" and a = sy and lo = "int yt"
        and hi = "int yb"])
    show "int yt \<le> sy" "sy < int yb" "P px sy" "int yt \<le> py" "py < int yb"
      using s row q by simp_all
  next
    fix j assume "int yt \<le> j" "j + 1 < int yb" "P px j"
    then show "P px (j + 1)"
      using closed [of px j px "j + 1"] q by (simp add: neighbours_def in_rect_def)
  next
    fix j assume "int yt \<le> j - 1" "j < int yb" "P px j"
    then show "P px (j - 1)"
      using closed [of px j px "j - 1"] q by (simp add: neighbours_def in_rect_def)
  qed
qed

lemma card_rect_indices:
  assumes "xr \<le> w"
  shows "card ((\<lambda>(px, py). py * w + px) ` ({xl..<xr} \<times> {yt..<yb})) = (xr - xl) * (yb - yt)"
proof -
  have "inj_on (\<lambda>(px, py). py * w + px) ({xl..<xr} \<times> {yt..<yb})"
  proof (rule inj_onI)
    fix a c
    assume a: "a \<in> {xl..<xr} \<times> {yt..<yb}" and c: "c \<in> {xl..<xr} \<times> {yt..<yb}"
      and eq: "(\<lambda>(px, py). py * w + px) a = (\<lambda>(px, py). py * w + px) c"
    from a c assms have l: "fst a < w" "fst c < w" by auto
    from eq have e: "snd a * w + fst a = snd c * w + fst c" by (simp add: case_prod_unfold)
    have "(snd a * w + fst a) mod w = fst a" "(snd c * w + fst c) mod w = fst c"
      using l by simp_all
    with e have x: "fst a = fst c" by simp
    have "(snd a * w + fst a) div w = snd a" "(snd c * w + fst c) div w = snd c"
      using l by simp_all
    with e have "snd a = snd c" by simp
    with x show "a = c" by (simp add: prod_eq_iff)
  qed
  then have "card ((\<lambda>(px, py). py * w + px) ` ({xl..<xr} \<times> {yt..<yb}))
               = card ({xl..<xr} \<times> {yt..<yb})"
    by (rule card_image)
  then show ?thesis by (simp add: card_cartesian_product)
qed

lemma nonzero_subset_rect:
  assumes len: "length m = w * h"
    and sub: "\<And>px py. marked w h m px py \<Longrightarrow> in_rect xl xr yt yb px py"
  shows "{k. nonzero_at m k} \<subseteq> (\<lambda>(px, py). py * w + px) ` ({xl..<xr} \<times> {yt..<yb})"
proof
  fix k assume "k \<in> {k. nonzero_at m k}"
  then have "nonzero_at m k" by simp
  from sub [OF nonzero_marked [OF this len]]
  have "(k mod w, k div w) \<in> {xl..<xr} \<times> {yt..<yb}" by (simp add: in_rect_def)
  moreover have "k = (\<lambda>(px, py). py * w + px) (k mod w, k div w)" by simp
  ultimately show "k \<in> (\<lambda>(px, py). py * w + px) ` ({xl..<xr} \<times> {yt..<yb})"
    by (rule rev_image_eqI)
qed

lemma card_nonzero_le_rect:
  assumes "xr \<le> w" "length m = w * h"
    and "\<And>px py. marked w h m px py \<Longrightarrow> in_rect xl xr yt yb px py"
  shows "card {k. nonzero_at m k} \<le> (xr - xl) * (yb - yt)"
proof -
  have "card {k. nonzero_at m k}
          \<le> card ((\<lambda>(px, py). py * w + px) ` ({xl..<xr} \<times> {yt..<yb}))"
    by (rule card_mono [OF _ nonzero_subset_rect [OF assms(2,3)]]) simp
  then show ?thesis by (simp add: card_rect_indices [OF assms(1)])
qed

lemma card_nonzero_eq_rect:
  assumes "xr \<le> w" "length m = w * h"
    and sub: "\<And>px py. marked w h m px py \<Longrightarrow> in_rect xl xr yt yb px py"
    and sup: "\<And>px py. in_rect xl xr yt yb px py \<Longrightarrow> marked w h m px py"
  shows "card {k. nonzero_at m k} = (xr - xl) * (yb - yt)"
proof -
  have "(\<lambda>(px, py). py * w + px) ` ({xl..<xr} \<times> {yt..<yb}) \<subseteq> {k. nonzero_at m k}"
  proof
    fix k assume "k \<in> (\<lambda>(px, py). py * w + px) ` ({xl..<xr} \<times> {yt..<yb})"
    then obtain px py where k: "k = py * w + px" and r: "px \<in> {xl..<xr}" "py \<in> {yt..<yb}"
      by auto
    then have "in_rect xl xr yt yb (int px) (int py)" by (simp add: in_rect_def)
    from sup [OF this] have "truthy (js_get m (int py * int w + int px))"
      by (simp add: marked_def)
    moreover have "int py * int w + int px = int k" by (simp add: k)
    ultimately show "k \<in> {k. nonzero_at m k}" by (simp add: truthy_js_get_int)
  qed
  with nonzero_subset_rect [OF assms(2) sub]
  have "{k. nonzero_at m k} = (\<lambda>(px, py). py * w + px) ` ({xl..<xr} \<times> {yt..<yb})"
    by (rule subset_antisym)
  then show ?thesis by (simp add: card_rect_indices [OF assms(1)])
qed

lemma fill_final_rect_marked:
  assumes acc: "\<And>px py. acceptable data w h (targetColor_of data w sx sy) tol vis px py
                  \<longleftrightarrow> in_rect xl xr yt yb px py"
    and start: "in_rect xl xr yt yb sx sy"
    and xr: "xr \<le> w"
    and small: "2 * ((xr - xl) * (yb - yt)) \<le> w * h"
  shows "\<forall>px py. marked w h (mask (fill_final data w h sx sy vis tol)) px py
                   \<longleftrightarrow> in_rect xl xr yt yb px py"
  unfolding fill_final_def
proof (rule while_loop_rule
    [where I = "\<lambda>s. mask_inv data w h (targetColor_of data w sx sy) tol vis s
                    \<and> region_inv data w h (targetColor_of data w sx sy) tol vis sx sy s"])
  let ?tc = "targetColor_of data w sx sy"
  show "mask_inv data w h ?tc tol vis (fill_init sx sy w h vis)
        \<and> region_inv data w h ?tc tol vis sx sy (fill_init sx sy w h vis)"
    by (simp add: mask_inv_init region_inv_init)
next
  let ?tc = "targetColor_of data w sx sy"
  fix s p rest
  assume i: "mask_inv data w h ?tc tol vis s \<and> region_inv data w h ?tc tol vis sx sy s"
    and q: "queue s = p # rest"
    and r: "\<not> accepts data w h ?tc tol p (s\<lparr>queue := rest\<rparr>)"
  from i have mi: "mask_inv data w h ?tc tol vis s" by simp
  have pm: "marked w h (mask s) (fst p) (snd p)"
    if "acceptable data w h ?tc tol vis (fst p) (snd p)"
    using rejected_acceptable_marked [OF mi that] r by simp
  show "mask_inv data w h ?tc tol vis (s\<lparr>queue := rest\<rparr>)
        \<and> region_inv data w h ?tc tol vis sx sy (s\<lparr>queue := rest\<rparr>)"
    using mask_inv_reject [OF mi] region_inv_reject [OF _ q pm] i by simp
next
  let ?tc = "targetColor_of data w sx sy"
  fix s p rest
  assume i: "mask_inv data w h ?tc tol vis s \<and> region_inv data w h ?tc tol vis sx sy s"
    and q: "queue s = p # rest"
    and a: "accepts data w h ?tc tol p (s\<lparr>queue := rest\<rparr>)"
  from i have len: "length (mask s) = w * h" by (simp add: mask_inv_def)
  show "mask_inv data w h ?tc tol vis (mark w p (s\<lparr>queue := rest\<rparr>))
        \<and> region_inv data w h ?tc tol vis sx sy (mark w p (s\<lparr>queue := rest\<rparr>))"
    using mask_inv_accept [OF _ a] region_inv_accept [OF _ q a len] i by blast
next
  let ?tc = "targetColor_of data w sx sy"
  fix s
  assume i: "mask_inv data w h ?tc tol vis s \<and> region_inv data w h ?tc tol vis sx sy s"
    and q: "queue s = []"
  from i have mi: "mask_inv data w h ?tc tol vis s"
    and ri: "region_inv data w h ?tc tol vis sx sy s" by simp_all
  have st: "marked w h (mask s) sx sy"
    using ri q acc start by (simp add: region_inv_def)
  have closed: "marked w h (mask s) qx qy"
    if "marked w h (mask s) px py" "(qx, qy) \<in> set (neighbours px py)"
      "in_rect xl xr yt yb qx qy" for px py qx qy
  proof -
    from that(3) have "acceptable data w h ?tc tol vis qx qy" by (simp add: acc)
    with ri that(1,2) have "marked w h (mask s) qx qy \<or> (qx, qy) \<in> set (queue s)"
      unfolding region_inv_def by blast
    then show ?thesis using q by simp
  qed
  show "\<forall>px py. marked w h (mask s) px py \<longleftrightarrow> in_rect xl xr yt yb px py"
  proof (intro allI iffI)
    fix px py assume "marked w h (mask s) px py"
    from marked_acceptable [OF mi this] show "in_rect xl xr yt yb px py" by (simp add: acc)
  next
    fix px py assume r: "in_rect xl xr yt yb px py"
    show "marked w h (mask s) px py"
    proof (rule rect_closed [where P = "marked w h (mask s)" and px = px and py = py])
      show "in_rect xl xr yt yb sx sy" by (rule start)
      show "marked w h (mask s) sx sy" by (rule st)
      show "in_rect xl xr yt yb px py" by (rule r)
    next
      fix ax ay qx qy
      assume "marked w h (mask s) ax ay" "(qx, qy) \<in> set (neighbours ax ay)"
        "in_rect xl xr yt yb qx qy"
      then show "marked w h (mask s) qx qy" by (rule closed)
    qed
  qed
next
  let ?tc = "targetColor_of data w sx sy"
  fix s p rest
  assume i: "mask_inv data w h ?tc tol vis s \<and> region_inv data w h ?tc tol vis sx sy s"
    and q: "queue s = p # rest"
    and a: "accepts data w h ?tc tol p (s\<lparr>queue := rest\<rparr>)"
    and c: "int w * int h < 2 * (pixelCount s + 1)"
  let ?s' = "mark w p (s\<lparr>queue := rest\<rparr>)"
  have mi': "mask_inv data w h ?tc tol vis ?s'" using mask_inv_accept [OF _ a] i by blast
  then have len: "length (mask ?s') = w * h" by (simp add: mask_inv_def)
  have sub: "in_rect xl xr yt yb px py" if "marked w h (mask ?s') px py" for px py
    using marked_acceptable [OF mi' that] by (simp add: acc)
  define N where "N = (xr - xl) * (yb - yt)"
  have "card {k. nonzero_at (mask ?s') k} \<le> N"
    unfolding N_def by (rule card_nonzero_le_rect [OF xr len sub])
  then have 1: "int (card {k. nonzero_at (mask ?s') k}) \<le> int N"
    by (simp only: of_nat_le_iff)
  have 2: "pixelCount ?s' = int (card {k. nonzero_at (mask ?s') k})"
    using mi' by (simp add: mask_inv_def)
  have 3: "pixelCount ?s' = pixelCount s + 1" by (simp add: mark_def)
  have "2 * N \<le> w * h" using small by (simp add: N_def)
  then have "int (2 * N) \<le> int (w * h)" by (simp only: of_nat_le_iff)
  then have 4: "2 * int N \<le> int w * int h" by simp
  from 1 have "pixelCount s + 1 \<le> int N" unfolding 2 [symmetric] 3 .
  then have "2 * (pixelCount s + 1) \<le> 2 * int N" by simp
  then have "2 * (pixelCount s + 1) \<le> int w * int h" using 4 by (rule order_trans)
  then have False using c by simp
  then show "\<forall>px py. marked w h (mask ?s') px py \<longleftrightarrow> in_rect xl xr yt yb px py" ..
qed

lemma fill_final_rect:
  assumes acc: "\<And>px py. acceptable data w h (targetColor_of data w sx sy) tol vis px py
                  \<longleftrightarrow> in_rect xl xr yt yb px py"
    and start: "in_rect xl xr yt yb sx sy"
    and xr: "xr \<le> w"
    and small: "2 * ((xr - xl) * (yb - yt)) \<le> w * h"
  shows "pixelCount (fill_final data w h sx sy vis tol) = int ((xr - xl) * (yb - yt))"
    and "minX (fill_final data w h sx sy vis tol) = int xl"
    and "maxX (fill_final data w h sx sy vis tol) = int xr - 1"
    and "minY (fill_final data w h sx sy vis tol) = int yt"
    and "maxY (fill_final data w h sx sy vis tol) = int yb - 1"
proof -
  let ?s = "fill_final data w h sx sy vis tol"
  from fill_final_inv [of data w h sx sy tol vis]
  have mi: "mask_inv data w h (targetColor_of data w sx sy) tol vis ?s"
    and bi: "bbox_inv w h sx sy ?s" by simp_all
  from fill_final_rect_marked [OF acc start xr small]
  have m: "\<And>px py. marked w h (mask ?s) px py \<longleftrightarrow> in_rect xl xr yt yb px py" by blast
  from mi have len: "length (mask ?s) = w * h" by (simp add: mask_inv_def)
  have "card {k. nonzero_at (mask ?s) k} = (xr - xl) * (yb - yt)"
    by (rule card_nonzero_eq_rect [OF xr len]) (simp_all add: m)
  then show "pixelCount ?s = int ((xr - xl) * (yb - yt))"
    using mi by (simp add: mask_inv_def)
  from start have s: "int xl \<le> sx" "sx < int xr" "int yt \<le> sy" "sy < int yb"
    by (simp_all add: in_rect_def)
  have ex: "\<exists>px py. marked w h (mask ?s) px py" using m start by blast
  from bi ex obtain a b c d where t: "marked w h (mask ?s) (minX ?s) a"
    "marked w h (mask ?s) (maxX ?s) b" "marked w h (mask ?s) c (minY ?s)"
    "marked w h (mask ?s) d (maxY ?s)"
    unfolding bbox_inv_def by auto
  from bi have inside: "\<And>px py. marked w h (mask ?s) px py \<Longrightarrow>
      minX ?s \<le> px \<and> px \<le> maxX ?s \<and> minY ?s \<le> py \<and> py \<le> maxY ?s"
    unfolding bbox_inv_def by blast
  have c1: "marked w h (mask ?s) (int xl) sy" "marked w h (mask ?s) (int xr - 1) sy"
    "marked w h (mask ?s) sx (int yt)" "marked w h (mask ?s) sx (int yb - 1)"
    using s by (simp_all add: m in_rect_def)
  show "minX ?s = int xl"
    using inside [OF c1(1)] t(1) by (simp add: m in_rect_def)
  show "maxX ?s = int xr - 1"
    using inside [OF c1(2)] t(2) by (simp add: m in_rect_def)
  show "minY ?s = int yt"
    using inside [OF c1(3)] t(3) by (simp add: m in_rect_def)
  show "maxY ?s = int yb - 1"
    using inside [OF c1(4)] t(4) by (simp add: m in_rect_def)
qed

lemma floodFill_visited_iff:
  assumes len: "length vis = w * h"
    and inb: "0 \<le> px" "px < int w" "0 \<le> py" "py < int h"
  shows "truthy (js_get (snd (floodFill ident data w h sx sy vis tol)) (py * int w + px))
           \<longleftrightarrow> truthy (js_get vis (py * int w + px))
               \<or> marked w h (mask (fill_final data w h sx sy vis tol)) px py"
proof -
  let ?s = "fill_final data w h sx sy vis tol"
  from fill_final_inv [of data w h sx sy tol vis]
  have mi: "mask_inv data w h (targetColor_of data w sx sy) tol vis ?s" by simp
  define k where "k = nat (py * int w + px)"
  have idx: "py * int w + px = int k" and k: "k < w * h"
    using pixel_index_nat [OF inb] by (simp_all add: k_def)
  from mi k len have v: "visited ?s ! k = (if nonzero_at (mask ?s) k then 1 else vis ! k)"
    and lv: "length (visited ?s) = w * h"
    by (simp_all add: mask_inv_def)
  have "nonzero_at (visited ?s) k \<longleftrightarrow> nonzero_at vis k \<or> nonzero_at (mask ?s) k"
    using v lv k len by (auto simp: nonzero_at_def)
  then show ?thesis
    using inb by (simp add: floodFill_visited marked_def idx truthy_js_get_int)
qed

lemma floodFill_rect:
  assumes acc: "\<And>px py. acceptable data w h (targetColor_of data w sx sy) tol vis px py
                  \<longleftrightarrow> in_rect xl xr yt yb px py"
    and start: "in_rect xl xr yt yb sx sy"
    and xr: "xr \<le> w"
    and small: "2 * ((xr - xl) * (yb - yt)) \<le> w * h"
    and big: "100 \<le> (xr - xl) * (yb - yt)"
  shows "\<exists>seg. fst (floodFill ident data w h sx sy vis tol) = Some seg
           \<and> bounds seg = \<lparr>b_x = int xl, b_y = int yt,
                             b_width = int xr - int xl, b_height = int yb - int yt\<rparr>"
proof -
  note f = fill_final_rect [OF acc start xr small]
  define N where "N = (xr - xl) * (yb - yt)"
  have "int 100 \<le> int N" using big unfolding N_def by (simp only: of_nat_le_iff)
  then have n: "\<not> int N < 100" by simp
  have w: "int xr - 1 - int xl + 1 = int xr - int xl" "int yb - 1 - int yt + 1 = int yb - int yt"
    by simp_all
  show ?thesis
    unfolding floodFill_def Let_def f N_def [symmetric] w using n by simp
qed

lemma floodFill_rect_visited:
  assumes acc: "\<And>px py. acceptable data w h (targetColor_of data w sx sy) tol vis px py
                  \<longleftrightarrow> in_rect xl xr yt yb px py"
    and start: "in_rect xl xr yt yb sx sy"
    and xr: "xr \<le> w"
    and small: "2 * ((xr - xl) * (yb - yt)) \<le> w * h"
    and len: "length vis = w * h"
    and inb: "0 \<le> px" "px < int w" "0 \<le> py" "py < int h"
  shows "truthy (js_get (snd (floodFill ident data w h sx sy vis tol)) (py * int w + px))
           \<longleftrightarrow> truthy (js_get vis (py * int w + px)) \<or> in_rect xl xr yt yb px py"
  using floodFill_visited_iff [OF len inb] fill_final_rect_marked [OF acc start xr small]
  by simp

section \<open>An image of two colours\<close>

lemma length_concat_map4:
  assumes "\<And>k. length (g k) = 4"
  shows "length (concat (map g [0..<n])) = 4 * n"
  using assms by (induction n) simp_all

lemma nth_concat_map4:
  assumes g: "\<And>k. length (g k) = 4" and "k < n" "c < 4"
  shows "concat (map g [0..<n]) ! (4 * k + c) = g k ! c"
  using assms(2)
proof (induction n)
  case 0
  then show ?case by simp
next
  case (Suc n)
  have l: "length (concat (map g [0..<n])) = 4 * n" by (rule length_concat_map4 [OF g])
  show ?case
  proof (cases "k < n")
    case True
    then have "4 * k + c < 4 * n" using assms(3) by simp
    then show ?thesis using Suc.IH [OF True] by (simp add: nth_append l)
  next
    case False
    then have "k = n" using Suc.prems by simp
    then show ?thesis by (simp add: nth_append l)
  qed
qed

lemma js_get_image:
  assumes f: "\<And>qx qy. length (f qx qy) = 4"
    and inb: "0 \<le> px" "px < int w" "0 \<le> py" "py < int h" and c: "c < 4"
  shows "js_get (image_of w h f) ((py * int w + px) * 4 + int c) = Some (f (nat px) (nat py) ! c)"
proof -
  define k where "k = nat py * w + nat px"
  have ik: "py * int w + px = int k" using inb by (simp add: k_def)
  have "int k < int (w * h)" using pixel_index_bounds(2) [OF inb] unfolding ik .
  then have k: "k < w * h" by (simp only: of_nat_less_iff)
  have md: "k mod w = nat px" "k div w = nat py" using inb by (simp_all add: k_def)
  have len: "length (image_of w h f) = 4 * (w * h)"
    unfolding image_of_def by (rule length_concat_map4) (rule f)
  have idx: "(py * int w + px) * 4 + int c = int (4 * k + c)" by (simp add: ik)
  have "4 * k + c < 4 * (w * h)" using k c by simp
  then have "js_get (image_of w h f) (int (4 * k + c)) = Some (image_of w h f ! (4 * k + c))"
    unfolding js_get_def len by (simp only: of_nat_0_le_iff of_nat_less_iff nat_int) simp
  also have "image_of w h f ! (4 * k + c) = f (k mod w) (k div w) ! c"
    unfolding image_of_def by (rule nth_concat_map4 [OF f k c])
  finally show ?thesis unfolding idx md .
qed

lemma colorDiff_image:
  assumes f: "\<And>qx qy. length (f qx qy) = 4"
    and p: "0 \<le> px" "px < int w" "0 \<le> py" "py < int h"
    and s: "0 \<le> sx" "sx < int w" "0 \<le> sy" "sy < int h"
  shows "colorDiff (image_of w h f) ((py * int w + px) * 4)
           (targetColor_of (image_of w h f) w sx sy)
         = Some (\<bar>int (f (nat px) (nat py) ! 0) - int (f (nat sx) (nat sy) ! 0)\<bar>
               + \<bar>int (f (nat px) (nat py) ! 1) - int (f (nat sx) (nat sy) ! 1)\<bar>
               + \<bar>int (f (nat px) (nat py) ! 2) - int (f (nat sx) (nat sy) ! 2)\<bar>)"
proof -
  let ?d = "image_of w h f"
  have g: "js_get ?d ((py * int w + px) * 4) = Some (f (nat px) (nat py) ! 0)"
    "js_get ?d ((py * int w + px) * 4 + 1) = Some (f (nat px) (nat py) ! 1)"
    "js_get ?d ((py * int w + px) * 4 + 2) = Some (f (nat px) (nat py) ! 2)"
    using js_get_image [OF f p, of 0] js_get_image [OF f p, of 1] js_get_image [OF f p, of 2]
    by simp_all
  have t: "js_get ?d ((sy * int w + sx) * 4) = Some (f (nat sx) (nat sy) ! 0)"
    "js_get ?d ((sy * int w + sx) * 4 + 1) = Some (f (nat sx) (nat sy) ! 1)"
    "js_get ?d ((sy * int w + sx) * 4 + 2) = Some (f (nat sx) (nat sy) ! 2)"
    using js_get_image [OF f s, of 0] js_get_image [OF f s, of 1] js_get_image [OF f s, of 2]
    by simp_all
  show ?thesis
    unfolding colorDiff_def targetColor_of_def Let_def rgb.select_convs g t by simp
qed

lemma length_split_pixel: "length (split_pixel qx qy) = 4"
  by (simp add: split_pixel_def)

lemma colorDiff_split:
  assumes p: "0 \<le> px" "px < 42" "0 \<le> py" "py < 21"
    and s: "0 \<le> sx" "sx < 42" "0 \<le> sy" "sy < 21"
  shows "colorDiff (image_of 42 21 split_pixel) ((py * int 42 + px) * 4)
           (targetColor_of (image_of 42 21 split_pixel) 42 sx sy)
         = Some (if (px < 21) = (sx < 21) then 0 else 510)"
proof -
  have "colorDiff (image_of 42 21 split_pixel) ((py * int 42 + px) * 4)
           (targetColor_of (image_of 42 21 split_pixel) 42 sx sy)
         = Some (\<bar>int (split_pixel (nat px) (nat py) ! 0) - int (split_pixel (nat sx) (nat sy) ! 0)\<bar>
               + \<bar>int (split_pixel (nat px) (nat py) ! 1) - int (split_pixel (nat sx) (nat sy) ! 1)\<bar>
               + \<bar>int (split_pixel (nat px) (nat py) ! 2) - int (split_pixel (nat sx) (nat sy) ! 2)\<bar>)"
    by (rule colorDiff_image [OF length_split_pixel]) (use p s in simp_all)
  also have "\<dots> = Some (if (px < 21) = (sx < 21) then 0 else 510)"
    using p s by (auto simp: split_pixel_def)
  finally show ?thesis .
qed

section \<open>The automatic mode on the image of two colours\<close>

lemma auto_loop_skip:
  assumes "\<forall>p \<in> set skipped. truthy (js_get vis (snd p * int w + fst p))"
  shows "auto_loop ids data w h (skipped @ points) n vis segs
           = auto_loop ids data w h points n vis segs"
  using assms by (induction skipped) simp_all

lemma auto_loop_take:
  assumes "\<not> truthy (js_get vis (snd p * int w + fst p))"
    and "fst (floodFill (ids n) data w h (fst p) (snd p) vis auto_tolerance) = Some seg"
    and "20 < b_width (bounds seg)" "20 < b_height (bounds seg)"
    and "length segs < 14"
  shows "auto_loop ids data w h (p # points) n vis segs
           = auto_loop ids data w h points (n + 1)
               (snd (floodFill (ids n) data w h (fst p) (snd p) vis auto_tolerance))
               (segs @ [seg])"
  using assms by (simp add: Let_def case_prod_unfold)

lemma split_acceptable_left:
  "acceptable (image_of 42 21 split_pixel) 42 21
     (targetColor_of (image_of 42 21 split_pixel) 42 6 6) 25 (replicate (42 * 21) 0) px py
   \<longleftrightarrow> in_rect 0 21 0 21 px py"
proof (cases "0 \<le> px \<and> px < 42 \<and> 0 \<le> py \<and> py < 21")
  case True
  then have "colorDiff (image_of 42 21 split_pixel) ((py * int 42 + px) * 4)
           (targetColor_of (image_of 42 21 split_pixel) 42 6 6)
         = Some (if (px < 21) = ((6::int) < 21) then 0 else 510)"
    by (intro colorDiff_split) simp_all
  then show ?thesis
    using True by (simp add: acceptable_def in_rect_def not_truthy_replicate_zero)
next
  case False
  then show ?thesis by (auto simp: acceptable_def in_rect_def)
qed

lemma split_visited_left:
  assumes "0 \<le> px" "px < 42" "0 \<le> py" "py < 21"
  shows "truthy (js_get (snd (floodFill ident (image_of 42 21 split_pixel) 42 21 6 6
                               (replicate (42 * 21) 0) 25)) (py * int 42 + px))
           \<longleftrightarrow> px < 21"
proof -
  have "truthy (js_get (snd (floodFill ident (image_of 42 21 split_pixel) 42 21 6 6
                               (replicate (42 * 21) 0) 25)) (py * int 42 + px))
          \<longleftrightarrow> truthy (js_get (replicate (42 * 21) 0) (py * int 42 + px))
              \<or> in_rect 0 21 0 21 px py"
    by (rule floodFill_rect_visited [OF split_acceptable_left])
       (use assms in \<open>simp_all add: in_rect_def\<close>)
  then show ?thesis using assms by (simp add: not_truthy_replicate_zero in_rect_def)
qed

lemma split_fill_left:
  "\<exists>seg. fst (floodFill ident (image_of 42 21 split_pixel) 42 21 6 6
                 (replicate (42 * 21) 0) 25) = Some seg
         \<and> bounds seg = \<lparr>b_x = 0, b_y = 0, b_width = 21, b_height = 21\<rparr>"
  using floodFill_rect [where xl = 0 and xr = 21 and yt = 0 and yb = 21 and ident = ident,
      OF split_acceptable_left]
  by (simp add: in_rect_def)

lemma split_acceptable_right:
  "acceptable (image_of 42 21 split_pixel) 42 21
     (targetColor_of (image_of 42 21 split_pixel) 42 24 6) 25
     (snd (floodFill ident (image_of 42 21 split_pixel) 42 21 6 6 (replicate (42 * 21) 0) 25))
     px py
   \<longleftrightarrow> in_rect 21 42 0 21 px py"
proof (cases "0 \<le> px \<and> px < 42 \<and> 0 \<le> py \<and> py < 21")
  case True
  then have "colorDiff (image_of 42 21 split_pixel) ((py * int 42 + px) * 4)
           (targetColor_of (image_of 42 21 split_pixel) 42 24 6)
         = Some (if (px < 21) = ((24::int) < 21) then 0 else 510)"
    by (intro colorDiff_split) simp_all
  then show ?thesis
    using True split_visited_left [of px py ident]
    by (auto simp: acceptable_def in_rect_def)
next
  case False
  then show ?thesis by (auto simp: acceptable_def in_rect_def)
qed

lemma split_fill_right:
  "\<exists>seg. fst (floodFill ident2 (image_of 42 21 split_pixel) 42 21 24 6
                 (snd (floodFill ident (image_of 42 21 split_pixel) 42 21 6 6
                         (replicate (42 * 21) 0) 25)) 25) = Some seg
         \<and> bounds seg = \<lparr>b_x = 21, b_y = 0, b_width = 21, b_height = 21\<rparr>"
  using floodFill_rect [where xl = 21 and xr = 42 and yt = 0 and yb = 21 and ident = ident2,
      OF split_acceptable_right]
  by (simp add: in_rect_def)

lemma split_visited_right:
  assumes "0 \<le> px" "px < 42" "0 \<le> py" "py < 21"
  shows "truthy (js_get (snd (floodFill ident2 (image_of 42 21 split_pixel) 42 21 24 6
                 (snd (floodFill ident (image_of 42 21 split_pixel) 42 21 6 6
                         (replicate (42 * 21) 0) 25)) 25)) (py * int 42 + px))"
proof -
  let ?v = "snd (floodFill ident (image_of 42 21 split_pixel) 42 21 6 6
                         (replicate (42 * 21) 0) 25)"
  have len: "length ?v = 42 * 21" by (simp add: floodFill_length_visited)
  have "truthy (js_get (snd (floodFill ident2 (image_of 42 21 split_pixel) 42 21 24 6 ?v 25))
                  (py * int 42 + px))
          \<longleftrightarrow> truthy (js_get ?v (py * int 42 + px)) \<or> in_rect 21 42 0 21 px py"
    by (rule floodFill_rect_visited [OF split_acceptable_right _ _ _ len])
       (use assms in \<open>simp_all add: in_rect_def\<close>)
  then show ?thesis
    using assms split_visited_left [OF assms, of ident] by (auto simp: in_rect_def)
qed

lemma split_skip_left:
  assumes "\<forall>p \<in> set ps. 0 \<le> fst p \<and> fst p < 21 \<and> 0 \<le> snd p \<and> snd p < 21"
  shows "\<forall>p \<in> set ps. truthy (js_get (snd (floodFill ident (image_of 42 21 split_pixel) 42 21 6 6
                               (replicate (42 * 21) 0) 25)) (snd p * int 42 + fst p))"
proof
  fix p assume "p \<in> set ps"
  with assms have "0 \<le> fst p" "fst p < 42" "0 \<le> snd p" "snd p < 21" "fst p < 21" by auto
  then show "truthy (js_get (snd (floodFill ident (image_of 42 21 split_pixel) 42 21 6 6
                               (replicate (42 * 21) 0) 25)) (snd p * int 42 + fst p))"
    using split_visited_left [of "fst p" "snd p" ident] by simp
qed

lemma split_skip_right:
  assumes "\<forall>p \<in> set ps. 0 \<le> fst p \<and> fst p < 42 \<and> 0 \<le> snd p \<and> snd p < 21"
  shows "\<forall>p \<in> set ps. truthy (js_get (snd (floodFill ident2 (image_of 42 21 split_pixel) 42 21 24 6
                 (snd (floodFill ident (image_of 42 21 split_pixel) 42 21 6 6
                         (replicate (42 * 21) 0) 25)) 25)) (snd p * int 42 + fst p))"
proof
  fix p assume "p \<in> set ps"
  with assms have "0 \<le> fst p" "fst p < 42" "0 \<le> snd p" "snd p < 21" by auto
  then show "truthy (js_get (snd (floodFill ident2 (image_of 42 21 split_pixel) 42 21 24 6
                 (snd (floodFill ident (image_of 42 21 split_pixel) 42 21 6 6
                         (replicate (42 * 21) 0) 25)) 25)) (snd p * int 42 + fst p))"
    by (rule split_visited_right)
qed

lemma getSamplePoints_split:
  "getSamplePoints 42 21 20 =
     Some ((6, 6) # [(12, 6), (18, 6)] @ (24, 6)
           # [(30, 6), (36, 6),
              (6, 12), (12, 12), (18, 12), (24, 12), (30, 12), (36, 12),
              (6, 18), (12, 18), (18, 18), (24, 18), (30, 18), (36, 18)] @ [])"
proof -
  have "floor_sqrt 44 = 6" by (simp add: floor_sqrt.simps)
  then have "sample_step 42 21 20 = 6" by (simp add: sample_step_code)
  then show ?thesis
    by (simp add: getSamplePoints_eq grid_def grid_row_def upto_rec1)
qed

lemma split_auto:
  "\<exists>a c. performLocalSegmentation ids split_image None = Some [a, c]
         \<and> bounds a = \<lparr>b_x = 0, b_y = 0, b_width = 21, b_height = 21\<rparr>
         \<and> bounds c = \<lparr>b_x = 21, b_y = 0, b_width = 21, b_height = 21\<rparr>"
proof -
  let ?d = "image_of 42 21 split_pixel"
  let ?z = "replicate (42 * 21) (0::nat)"
  let ?v1 = "snd (floodFill (ids 0) ?d 42 21 6 6 ?z 25)"
  let ?v2 = "snd (floodFill (ids 1) ?d 42 21 24 6 ?v1 25)"
  let ?rest = "[(30, 6), (36, 6),
              (6, 12), (12, 12), (18, 12), (24, 12), (30, 12), (36, 12),
              (6, 18), (12, 18), (18, 18), (24, 18), (30, 18), (36, 18)] :: point list"
  obtain a where a: "fst (floodFill (ids 0) ?d 42 21 6 6 ?z 25) = Some a"
    "bounds a = \<lparr>b_x = 0, b_y = 0, b_width = 21, b_height = 21\<rparr>"
    using split_fill_left [of "ids 0"] by blast
  obtain c where c: "fst (floodFill (ids 1) ?d 42 21 24 6 ?v1 25) = Some c"
    "bounds c = \<lparr>b_x = 21, b_y = 0, b_width = 21, b_height = 21\<rparr>"
    using split_fill_right [of "ids 1" "ids 0"] by blast
  have n1: "\<not> truthy (js_get ?z (snd ((6, 6) :: point) * int 42 + fst ((6, 6) :: point)))"
    by (rule not_truthy_replicate_zero)
  have n2: "\<not> truthy (js_get ?v1 (snd ((24, 6) :: point) * int 42 + fst ((24, 6) :: point)))"
    using split_visited_left [of 24 6 "ids 0"] by simp
  have a': "fst (floodFill (ids 0) ?d 42 21 (fst ((6, 6) :: point)) (snd ((6, 6) :: point)) ?z
                   auto_tolerance) = Some a"
    using a(1) by (simp add: auto_tolerance_def)
  have c': "fst (floodFill (ids 1) ?d 42 21 (fst ((24, 6) :: point)) (snd ((24, 6) :: point)) ?v1
                   auto_tolerance) = Some c"
    using c(1) by (simp add: auto_tolerance_def)
  have 1: "auto_loop ids ?d 42 21 ((6, 6) # [(12, 6), (18, 6)] @ (24, 6) # ?rest @ []) 0 ?z []
             = auto_loop ids ?d 42 21 ([(12, 6), (18, 6)] @ (24, 6) # ?rest @ []) (0 + 1)
                 (snd (floodFill (ids 0) ?d 42 21 (fst ((6, 6) :: point)) (snd ((6, 6) :: point))
                         ?z auto_tolerance)) ([] @ [a])"
    by (rule auto_loop_take [where ids = ids and n = 0, OF n1 a']) (simp_all add: a(2))
  have 2: "auto_loop ids ?d 42 21 ([(12, 6), (18, 6)] @ (24, 6) # ?rest @ []) 1 ?v1 [a]
             = auto_loop ids ?d 42 21 ((24, 6) # ?rest @ []) 1 ?v1 [a]"
    by (rule auto_loop_skip, rule split_skip_left) simp
  have 3: "auto_loop ids ?d 42 21 ((24, 6) # ?rest @ []) 1 ?v1 [a]
             = auto_loop ids ?d 42 21 (?rest @ []) (1 + 1)
                 (snd (floodFill (ids 1) ?d 42 21 (fst ((24, 6) :: point)) (snd ((24, 6) :: point))
                         ?v1 auto_tolerance)) ([a] @ [c])"
    by (rule auto_loop_take [where ids = ids and n = 1, OF n2 c']) (simp_all add: c(2))
  have 4: "auto_loop ids ?d 42 21 (?rest @ []) 2 ?v2 [a, c] = auto_loop ids ?d 42 21 [] 2 ?v2 [a, c]"
    by (rule auto_loop_skip, rule split_skip_right) simp
  have e: "(0::nat) + 1 = 1" "(1::nat) + 1 = 2" "fst ((6, 6) :: point) = 6" "snd ((6, 6) :: point) = 6"
    "fst ((24, 6) :: point) = 24" "snd ((24, 6) :: point) = 6" "[] @ [a] = [a]" "[a] @ [c] = [a, c]"
    "auto_tolerance = 25"
    by (simp_all add: auto_tolerance_def)
  note 1 = 1 [unfolded e] and 3 = 3 [unfolded e]
  have "performLocalSegmentation ids split_image None
          = Some (auto_loop ids ?d 42 21 ((6, 6) # [(12, 6), (18, 6)] @ (24, 6) # ?rest @ []) 0 ?z [])"
    unfolding performLocalSegmentation_def split_image_def Let_def
    by (simp only: imageData.select_convs getSamplePoints_split option.case bind.bind_lunit)
  also have "\<dots> = Some [a, c]" unfolding 1 2 3 4 by (simp only: auto_loop.simps)
  finally show ?thesis using a(2) c(2) by blast
qed

text \<open>
  The image of two colours in the automatic mode: two regions, the left and the right
  half, with no pixel in both.
\<close>

theorem autoSegment_disjoint_witness:
  "\<exists>a c. performLocalSegmentation demo_ids split_image None = Some [a, c]
         \<and> bounds a = \<lparr>b_x = 0, b_y = 0, b_width = 21, b_height = 21\<rparr>
         \<and> bounds c = \<lparr>b_x = 21, b_y = 0, b_width = 21, b_height = 21\<rparr>
         \<and> \<not> (\<exists>k. k < length (maskData a) \<and> maskData a ! k \<noteq> 0
                  \<and> k < length (maskData c) \<and> maskData c ! k \<noteq> 0)"
proof -
  obtain a c where e: "performLocalSegmentation demo_ids split_image None = Some [a, c]"
    and b: "bounds a = \<lparr>b_x = 0, b_y = 0, b_width = 21, b_height = 21\<rparr>"
      "bounds c = \<lparr>b_x = 21, b_y = 0, b_width = 21, b_height = 21\<rparr>"
    using split_auto [of demo_ids] by blast
  have "\<not> (k < length (maskData ([a, c] ! 0)) \<and> maskData ([a, c] ! 0) ! k \<noteq> 0
            \<and> k < length (maskData ([a, c] ! 1)) \<and> maskData ([a, c] ! 1) ! k \<noteq> 0)" for k
    using autoSegment_disjoint [OF e, rule_format, of 0 1 k] by simp
  then have "\<not> (\<exists>k. k < length (maskData a) \<and> maskData a ! k \<noteq> 0
                  \<and> k < length (maskData c) \<and> maskData c ! k \<noteq> 0)"
    by simp
  with e b show ?thesis by blast
qed

end
